theory Spec2Isabelle
  imports Main
begin

section \<open>The skill decision tree (a2\_skill\_decision\_tree.py)\<close>

text \<open>
  A \<open>SkillDecisionTree\<close> object has the attributes \<open>value\<close>, \<open>condition\<close>, \<open>priority\<close>
  and \<open>children\<close>.  \<open>get_possible_skills\<close> tests \<open>self.children is None\<close>, so the
  attribute is modelled as an optional list; the skill type \<open>'v\<close> and the character type
  \<open>'c\<close> are left open.  The attribute \<open>value\<close> is called \<open>skill_value\<close> here.
\<close>

datatype ('v, 'c) SkillDecisionTree =
  SkillDecisionTree (skill_value: 'v) (condition: "'c \<Rightarrow> 'c \<Rightarrow> bool") (priority: int)
    (children: "('v, 'c) SkillDecisionTree list option")

text \<open>
  \<open>__init__\<close>: \<open>self.children = children[:] if children else []\<close>.  The argument
  defaults to \<open>None\<close>; both \<open>None\<close> and the empty list are falsy, so the attribute is
  always a list and never \<open>None\<close>.
\<close>

definition SkillDecisionTree_init ::
  "'v \<Rightarrow> ('c \<Rightarrow> 'c \<Rightarrow> bool) \<Rightarrow> int \<Rightarrow> ('v, 'c) SkillDecisionTree list option
     \<Rightarrow> ('v, 'c) SkillDecisionTree" where
  "SkillDecisionTree_init v cond p chs =
     SkillDecisionTree v cond p
       (Some (case chs of None \<Rightarrow> [] | Some cs \<Rightarrow> (if cs \<noteq> [] then cs else [])))"

text \<open>
  \<open>get_possible_skills\<close>: the test \<open>self is None\<close> cannot succeed on a method call and
  is omitted; \<open>sum(lists, [])\<close> is list concatenation.
\<close>

fun get_possible_skills ::
  "('v, 'c) SkillDecisionTree \<Rightarrow> 'c \<Rightarrow> 'c \<Rightarrow> ('v, 'c) SkillDecisionTree list" where
  "get_possible_skills (SkillDecisionTree v cond p ch) caster target =
     (if \<not> cond caster target \<or> ch = None then [SkillDecisionTree v cond p ch]
      else concat (map (\<lambda>child. get_possible_skills child caster target) (the ch)))"

text \<open>
  \<open>pick_skill\<close>: the loop keeps the first candidate and replaces it whenever a strictly
  smaller priority number is met.
\<close>

definition pick_skill :: "('v, 'c) SkillDecisionTree \<Rightarrow> 'c \<Rightarrow> 'c \<Rightarrow> 'v option" where
  "pick_skill t caster target =
     (let possible_skills = get_possible_skills t caster target in
      case possible_skills of
        [] \<Rightarrow> None
      | first # _ \<Rightarrow>
          Some (skill_value
            (foldl (\<lambda>highest_priority_node n.
                      if priority n < priority highest_priority_node then n
                      else highest_priority_node)
               first possible_skills)))"

section \<open>Objects, references and the store\<close>

text \<open>
  Characters and queues are mutable objects that refer to each other (a character knows
  its enemy and its queue, a queue holds its characters), and the claims about copies
  depend on which objects are shared.  The model therefore keeps an explicit store:
  a reference is an index into the list of all objects of its kind, allocation appends
  to the list, and \<open>==\<close> on characters is comparison of references (object identity).
  \<open>None\<close> is modelled by \<open>option\<close> and dereferencing it raises \<open>AttributeError\<close>.
  A Python reference always denotes a live object; a store in which some reference is
  out of range corresponds to no Python state, and reading an object through such a
  reference yields \<open>NoSuchObject\<close>, so that every function of the model is fully
  specified.
\<close>

type_synonym cref = nat
type_synonym qref = nat
type_synonym nref = nat

datatype error = IndexError | AttributeError | TypeError | ValueError | NoSuchObject

text \<open>
  The outcome of a call: a returned value, a raised exception, or \<open>OutOfFuel\<close> when the
  bounded unfolding of a possibly non-terminating search was exhausted (this is not a
  Python outcome; it stands for "has not returned yet").
\<close>

datatype 'a outcome = Return 'a | Raise error | OutOfFuel

text \<open>
  Modelled from the spec: the \<open>Character\<close> class lives in a2\_characters.py, which is not
  part of the sources.  A character object carries its class-specific state \<open>stats\<close>
  (hit points, skill points, and whatever else its class keeps), the attribute \<open>enemy\<close>
  and the attribute \<open>battle_queue\<close> (the field \<open>char_battle_queue\<close>).
\<close>

record 's character =
  stats :: 's
  enemy :: "cref option"
  char_battle_queue :: qref

text \<open>
  A \<open>BattleQueue\<close> object has \<open>_content\<close>, \<open>_p1\<close> and \<open>_p2\<close>; a
  \<open>RestrictedBattleQueue\<close> has \<open>_add_status\<close> in addition.  The class of the object
  selects the overriding methods.
\<close>

datatype qclass = BattleQueue | RestrictedBattleQueue

record queue =
  qclass :: qclass
  content :: "cref list"
  p1 :: "cref option"
  p2 :: "cref option"
  add_status :: "bool list"

text \<open>
  A \<open>GameStateNode\<close> of the iterative search (a2\_playstyle.py), with its attributes
  \<open>battle_queue\<close>, \<open>current_player\<close>, \<open>action_taken\<close>, \<open>highest_score\<close> and
  \<open>children\<close>.
\<close>

record node =
  node_battle_queue :: qref
  node_current_player :: "cref option"
  node_action_taken :: string
  node_highest_score :: "int option"
  node_children :: "nref list option"

record 's heap =
  chars :: "'s character list"
  queues :: "queue list"
  nodes :: "node list"

type_synonym ('s, 'a) M = "'s heap \<Rightarrow> 'a outcome \<times> 's heap"

definition ret :: "'a \<Rightarrow> ('s, 'a) M" where
  "ret x h = (Return x, h)"

definition throw :: "error \<Rightarrow> ('s, 'a) M" where
  "throw e h = (Raise e, h)"

definition bnd :: "('s, 'a) M \<Rightarrow> ('a \<Rightarrow> ('s, 'b) M) \<Rightarrow> ('s, 'b) M" where
  "bnd m f h =
     (case m h of
        (Return x, h') \<Rightarrow> f x h'
      | (Raise e, h') \<Rightarrow> (Raise e, h')
      | (OutOfFuel, h') \<Rightarrow> (OutOfFuel, h'))"

text \<open>Running a loop body over a list, collecting the results (a \<open>for\<close> loop).\<close>

fun for_each :: "('a \<Rightarrow> ('s, 'b) M) \<Rightarrow> 'a list \<Rightarrow> ('s, 'b list) M" where
  "for_each f [] = ret []"
| "for_each f (x # xs) = bnd (f x) (\<lambda>y. bnd (for_each f xs) (\<lambda>ys. ret (y # ys)))"

text \<open>A \<open>for\<close> loop that updates local variables (the loop state).\<close>

fun for_loop :: "('a \<Rightarrow> 'st \<Rightarrow> ('s, 'st) M) \<Rightarrow> 'a list \<Rightarrow> 'st \<Rightarrow> ('s, 'st) M" where
  "for_loop f [] st = ret st"
| "for_loop f (x # xs) st = bnd (f x st) (\<lambda>st'. for_loop f xs st')"

text \<open>
  The skill classes of a2\_skills.py.  \<open>MageAttack\<close> and \<open>RogueAttack\<close> are the two
  subclasses of \<open>NormalAttack\<close>.  A \<open>SorcererAttack\<close> holds a decision tree
  (\<open>None\<close> until \<open>set_decision_tree\<close> is called) whose nodes hold the skills it may
  choose; these are skills of the other classes, as in \<open>create_default_tree\<close>.  The
  conditions of the tree look at the state of the caster and of the target.
\<close>

datatype basic_skill =
  MageAttack | MageSpecial | RogueAttack | RogueSpecial
  | VampireAttack | VampireSpecial | SorcererSpecial

datatype 's skill =
  Basic basic_skill
  | SorcererAttack "(basic_skill, 's) SkillDecisionTree option"

text \<open>
  Modelled from the spec: the methods of \<open>Character\<close> (a2\_characters.py is absent) are
  parameters of the model.  \<open>get_hp\<close>, \<open>get_sp\<close>, \<open>set_hp\<close>, \<open>set_sp\<close>, \<open>reduce_sp\<close>
  and \<open>apply_damage\<close> read or change the character's own state;
  \<open>get_available_actions\<close> is a list of action letters determined by the character's
  own state; \<open>attack_skill\<close> and \<open>special_skill\<close> give the \<open>Skill\<close> object that
  \<open>attack()\<close> and \<open>special_attack()\<close> use.
\<close>

record 's character_ops =
  get_hp :: "'s \<Rightarrow> int"
  get_sp :: "'s \<Rightarrow> int"
  set_hp :: "'s \<Rightarrow> int \<Rightarrow> 's"
  set_sp :: "'s \<Rightarrow> int \<Rightarrow> 's"
  reduce_sp :: "'s \<Rightarrow> int \<Rightarrow> 's"
  apply_damage :: "'s \<Rightarrow> int \<Rightarrow> 's"
  get_available_actions :: "'s \<Rightarrow> string list"
  attack_skill :: "'s \<Rightarrow> 's skill"
  special_skill :: "'s \<Rightarrow> 's skill"

definition get_char :: "cref \<Rightarrow> ('s, 's character) M" where
  "get_char c h =
     (if c < length (chars h) then (Return (chars h ! c), h) else (Raise NoSuchObject, h))"

definition put_char :: "cref \<Rightarrow> 's character \<Rightarrow> ('s, unit) M" where
  "put_char c C h = (Return (), h\<lparr>chars := (chars h)[c := C]\<rparr>)"

definition char_stats :: "cref \<Rightarrow> ('s, 's) M" where
  "char_stats c = bnd (get_char c) (\<lambda>C. ret (stats C))"

definition char_enemy :: "cref \<Rightarrow> ('s, cref option) M" where
  "char_enemy c = bnd (get_char c) (\<lambda>C. ret (enemy C))"

definition battle_queue_of :: "cref \<Rightarrow> ('s, qref) M" where
  "battle_queue_of c = bnd (get_char c) (\<lambda>C. ret (char_battle_queue C))"

definition update_stats :: "cref \<Rightarrow> ('s \<Rightarrow> 's) \<Rightarrow> ('s, unit) M" where
  "update_stats c f = bnd (get_char c) (\<lambda>C. put_char c (C\<lparr>stats := f (stats C)\<rparr>))"

definition set_enemy :: "cref \<Rightarrow> cref option \<Rightarrow> ('s, unit) M" where
  "set_enemy c e = bnd (get_char c) (\<lambda>C. put_char c (C\<lparr>enemy := e\<rparr>))"

definition get_queue :: "qref \<Rightarrow> ('s, queue) M" where
  "get_queue q h =
     (if q < length (queues h) then (Return (queues h ! q), h) else (Raise NoSuchObject, h))"

definition put_queue :: "qref \<Rightarrow> queue \<Rightarrow> ('s, unit) M" where
  "put_queue q Q h = (Return (), h\<lparr>queues := (queues h)[q := Q]\<rparr>)"

section \<open>BattleQueue and RestrictedBattleQueue (a2\_battle\_queue.py)\<close>

definition BattleQueue_init :: "('s, qref) M" where
  "BattleQueue_init h =
     (Return (length (queues h)),
      h\<lparr>queues := queues h @
         [\<lparr>qclass = BattleQueue, content = [], p1 = None, p2 = None, add_status = []\<rparr>]\<rparr>)"

definition RestrictedBattleQueue_init :: "('s, qref) M" where
  "RestrictedBattleQueue_init h =
     (Return (length (queues h)),
      h\<lparr>queues := queues h @
         [\<lparr>qclass = RestrictedBattleQueue, content = [], p1 = None, p2 = None,
           add_status = []\<rparr>]\<rparr>)"

text \<open>
  \<open>_clean_queue\<close>: pop from the front while the front character has no available
  actions.  The override of \<open>RestrictedBattleQueue\<close> then keeps the last
  \<open>len(self._content)\<close> entries of \<open>_add_status\<close>.
\<close>

fun clean_content :: "'s character_ops \<Rightarrow> cref list \<Rightarrow> ('s, cref list) M" where
  "clean_content ops [] = ret []"
| "clean_content ops (c # xs) =
     bnd (char_stats c) (\<lambda>s.
       if get_available_actions ops s = [] then clean_content ops xs
       else ret (c # xs))"

definition clean_queue :: "'s character_ops \<Rightarrow> qref \<Rightarrow> ('s, unit) M" where
  "clean_queue ops q =
     bnd (get_queue q) (\<lambda>Q.
     bnd (clean_content ops (content Q)) (\<lambda>xs.
       case qclass Q of
         BattleQueue \<Rightarrow> put_queue q (Q\<lparr>content := xs\<rparr>)
       | RestrictedBattleQueue \<Rightarrow>
           put_queue q
             (Q\<lparr>content := xs,
                add_status :=
                  (if xs = [] then []
                   else drop (length (add_status Q) - length xs) (add_status Q))\<rparr>)))"

text \<open>
  \<open>BattleQueue.add\<close>.  The test \<open>not self._p1\<close> is the truth value of the attribute:
  \<open>None\<close> is false, a character object is true.
\<close>

definition BattleQueue_add :: "qref \<Rightarrow> cref \<Rightarrow> ('s, unit) M" where
  "BattleQueue_add q c =
     bnd (get_queue q) (\<lambda>Q.
     bnd (put_queue q (Q\<lparr>content := content Q @ [c]\<rparr>)) (\<lambda>_.
     if p1 Q = None then
       bnd (char_enemy c) (\<lambda>e.
       bnd (get_queue q) (\<lambda>Q'. put_queue q (Q'\<lparr>p1 := Some c, p2 := e\<rparr>)))
     else ret ()))"

text \<open>
  \<open>get_add_ability_count\<close>: \<open>self._add_status[i]\<close> is read only at the positions
  \<open>i\<close> that hold the character, and raises \<open>IndexError\<close> when the status list is
  too short there.
\<close>

fun count_add_ability :: "cref \<Rightarrow> cref list \<Rightarrow> bool list \<Rightarrow> error + nat" where
  "count_add_ability c [] st = Inr 0"
| "count_add_ability c (x # xs) st =
     (if x = c then
        (case st of
           [] \<Rightarrow> Inl IndexError
         | b # bs \<Rightarrow>
             (case count_add_ability c xs bs of
                Inl e \<Rightarrow> Inl e
              | Inr n \<Rightarrow> Inr ((if b then 1 else 0) + n)))
      else count_add_ability c xs (tl st))"

definition get_add_ability_count :: "qref \<Rightarrow> cref \<Rightarrow> ('s, nat) M" where
  "get_add_ability_count q c =
     bnd (get_queue q) (\<lambda>Q.
       case count_add_ability c (content Q) (add_status Q) of
         Inl e \<Rightarrow> throw e
       | Inr n \<Rightarrow> ret n)"

definition append_ticket :: "qref \<Rightarrow> cref \<Rightarrow> bool \<Rightarrow> ('s, unit) M" where
  "append_ticket q c b =
     bnd (get_queue q) (\<lambda>Q.
       put_queue q (Q\<lparr>content := content Q @ [c], add_status := add_status Q @ [b]\<rparr>))"

definition RestrictedBattleQueue_add :: "qref \<Rightarrow> cref \<Rightarrow> ('s, unit) M" where
  "RestrictedBattleQueue_add q c =
     bnd (get_queue q) (\<lambda>Q0.
     bnd (if p1 Q0 = None then
            bnd (char_enemy c) (\<lambda>e. put_queue q (Q0\<lparr>p1 := Some c, p2 := e\<rparr>))
          else ret ()) (\<lambda>_.
     bnd (get_queue q) (\<lambda>Q.
     let exist_count = length (filter (\<lambda>x. x = c) (content Q)) in
     if exist_count = 0 then append_ticket q c True
     else
       (case content Q of
          [] \<Rightarrow> throw IndexError
        | front_c # _ \<Rightarrow>
            (case add_status Q of
               [] \<Rightarrow> throw IndexError
             | front_c_add_status # _ \<Rightarrow>
                 if front_c_add_status then
                   (if front_c = c then
                      bnd (get_add_ability_count q front_c) (\<lambda>add_ability_count.
                        if add_ability_count \<ge> 2 then append_ticket q c False
                        else append_ticket q c True)
                    else append_ticket q c False)
                 else ret ())))))"

definition add :: "qref \<Rightarrow> cref \<Rightarrow> ('s, unit) M" where
  "add q c =
     bnd (get_queue q) (\<lambda>Q.
       case qclass Q of
         BattleQueue \<Rightarrow> BattleQueue_add q c
       | RestrictedBattleQueue \<Rightarrow> RestrictedBattleQueue_add q c)"

text \<open>\<open>list.pop(0)\<close> raises \<open>IndexError\<close> on an empty list.\<close>

definition BattleQueue_remove :: "'s character_ops \<Rightarrow> qref \<Rightarrow> ('s, cref) M" where
  "BattleQueue_remove ops q =
     bnd (clean_queue ops q) (\<lambda>_.
     bnd (get_queue q) (\<lambda>Q.
       case content Q of
         [] \<Rightarrow> throw IndexError
       | c # rest \<Rightarrow> bnd (put_queue q (Q\<lparr>content := rest\<rparr>)) (\<lambda>_. ret c)))"

definition RestrictedBattleQueue_remove ::
  "'s character_ops \<Rightarrow> qref \<Rightarrow> ('s, cref) M" where
  "RestrictedBattleQueue_remove ops q =
     bnd (clean_queue ops q) (\<lambda>_.
     bnd (get_queue q) (\<lambda>Q.
       case add_status Q of
         [] \<Rightarrow> throw IndexError
       | _ # st \<Rightarrow>
           bnd (put_queue q (Q\<lparr>add_status := st\<rparr>)) (\<lambda>_.
             case content Q of
               [] \<Rightarrow> throw IndexError
             | c # rest \<Rightarrow>
                 bnd (put_queue q (Q\<lparr>add_status := st, content := rest\<rparr>)) (\<lambda>_. ret c))))"

definition remove :: "'s character_ops \<Rightarrow> qref \<Rightarrow> ('s, cref) M" where
  "remove ops q =
     bnd (get_queue q) (\<lambda>Q.
       case qclass Q of
         BattleQueue \<Rightarrow> BattleQueue_remove ops q
       | RestrictedBattleQueue \<Rightarrow> RestrictedBattleQueue_remove ops q)"

definition is_empty :: "'s character_ops \<Rightarrow> qref \<Rightarrow> ('s, bool) M" where
  "is_empty ops q =
     bnd (clean_queue ops q) (\<lambda>_.
     bnd (get_queue q) (\<lambda>Q. ret (content Q = [])))"

definition peek :: "'s character_ops \<Rightarrow> qref \<Rightarrow> ('s, cref option) M" where
  "peek ops q =
     bnd (clean_queue ops q) (\<lambda>_.
     bnd (get_queue q) (\<lambda>Q.
       case content Q of
         c # _ \<Rightarrow> ret (Some c)
       | [] \<Rightarrow> ret (p1 Q)))"

text \<open>\<open>x.get_hp()\<close> where \<open>x\<close> may be \<open>None\<close>.\<close>

definition hp_of :: "'s character_ops \<Rightarrow> cref option \<Rightarrow> ('s, int) M" where
  "hp_of ops x =
     (case x of
        None \<Rightarrow> throw AttributeError
      | Some c \<Rightarrow> bnd (char_stats c) (\<lambda>s. ret (get_hp ops s)))"

definition is_over :: "'s character_ops \<Rightarrow> qref \<Rightarrow> ('s, bool) M" where
  "is_over ops q =
     bnd (is_empty ops q) (\<lambda>e.
       if e then ret True
       else
         bnd (get_queue q) (\<lambda>Q.
         bnd (hp_of ops (p1 Q)) (\<lambda>hp1.
           if hp1 = 0 then ret True
           else bnd (hp_of ops (p2 Q)) (\<lambda>hp2.
             if hp2 = 0 then ret True else ret False))))"

definition get_winner :: "'s character_ops \<Rightarrow> qref \<Rightarrow> ('s, cref option) M" where
  "get_winner ops q =
     bnd (is_over ops q) (\<lambda>over.
       if \<not> over then ret None
       else
         bnd (get_queue q) (\<lambda>Q.
         bnd (hp_of ops (p1 Q)) (\<lambda>hp1.
           if hp1 = 0 then ret (p2 Q)
           else bnd (hp_of ops (p2 Q)) (\<lambda>hp2.
             if hp2 = 0 then ret (p1 Q) else ret None))))"

text \<open>
  Modelled from the spec: \<open>Character.copy(new_battle_queue)\<close> (a2\_characters.py is
  absent) produces an independent clone registered against the given queue: a new
  character object with the same state.  Its \<open>enemy\<close> is assigned by the caller
  right afterwards.
\<close>

definition Character_copy :: "cref option \<Rightarrow> qref \<Rightarrow> ('s, cref) M" where
  "Character_copy x new_battle_queue =
     (case x of
        None \<Rightarrow> throw AttributeError
      | Some c \<Rightarrow>
          bnd (char_stats c) (\<lambda>s h.
            (Return (length (chars h)),
             h\<lparr>chars := chars h @
                [\<lparr>stats = s, enemy = None, char_battle_queue = new_battle_queue\<rparr>]\<rparr>)))"

text \<open>
  \<open>copy\<close>: the bodies of \<open>BattleQueue.copy\<close> and \<open>RestrictedBattleQueue.copy\<close> differ
  only in the class of the new queue; \<open>add\<close>, \<open>is_empty\<close> and \<open>remove\<close> on the new
  queue are those of its class.
\<close>

definition copy_body :: "'s character_ops \<Rightarrow> qref \<Rightarrow> qref \<Rightarrow> ('s, qref) M" where
  "copy_body ops q new_battle_queue =
     bnd (get_queue q) (\<lambda>Q.
     bnd (Character_copy (p1 Q) new_battle_queue) (\<lambda>p1_copy.
     bnd (Character_copy (p2 Q) new_battle_queue) (\<lambda>p2_copy.
     bnd (set_enemy p1_copy (Some p2_copy)) (\<lambda>_.
     bnd (set_enemy p2_copy (Some p1_copy)) (\<lambda>_.
     bnd (add new_battle_queue p1_copy) (\<lambda>_.
     bnd (is_empty ops new_battle_queue) (\<lambda>e.
     bnd (if \<not> e then bnd (remove ops new_battle_queue) (\<lambda>_. ret ()) else ret ()) (\<lambda>_.
     bnd (for_each
            (\<lambda>character.
               if Some character = p1 Q then add new_battle_queue p1_copy
               else add new_battle_queue p2_copy)
            (content Q)) (\<lambda>_.
     ret new_battle_queue)))))))))"

definition BattleQueue_copy :: "'s character_ops \<Rightarrow> qref \<Rightarrow> ('s, qref) M" where
  "BattleQueue_copy ops q = bnd BattleQueue_init (\<lambda>new_battle_queue. copy_body ops q new_battle_queue)"

definition RestrictedBattleQueue_copy :: "'s character_ops \<Rightarrow> qref \<Rightarrow> ('s, qref) M" where
  "RestrictedBattleQueue_copy ops q =
     bnd RestrictedBattleQueue_init (\<lambda>new_r_battle_queue. copy_body ops q new_r_battle_queue)"

definition copy :: "'s character_ops \<Rightarrow> qref \<Rightarrow> ('s, qref) M" where
  "copy ops q =
     bnd (get_queue q) (\<lambda>Q.
       case qclass Q of
         BattleQueue \<Rightarrow> BattleQueue_copy ops q
       | RestrictedBattleQueue \<Rightarrow> RestrictedBattleQueue_copy ops q)"

section \<open>Skills (a2\_skills.py)\<close>

fun sp_cost :: "basic_skill \<Rightarrow> int" where
  "sp_cost MageAttack = 5"
| "sp_cost MageSpecial = 30"
| "sp_cost RogueAttack = 3"
| "sp_cost RogueSpecial = 10"
| "sp_cost VampireAttack = 15"
| "sp_cost VampireSpecial = 20"
| "sp_cost SorcererSpecial = 20"

fun damage :: "basic_skill \<Rightarrow> int" where
  "damage MageAttack = 20"
| "damage MageSpecial = 40"
| "damage RogueAttack = 15"
| "damage RogueSpecial = 20"
| "damage VampireAttack = 20"
| "damage VampireSpecial = 30"
| "damage SorcererSpecial = 25"

text \<open>\<open>SorcererAttack.__init__\<close> is \<open>super().__init__(15, 0)\<close>.\<close>

definition SorcererAttack_sp_cost :: int where
  "SorcererAttack_sp_cost = 15"

definition deal_damage :: "'s character_ops \<Rightarrow> basic_skill \<Rightarrow> cref \<Rightarrow> cref \<Rightarrow> ('s, unit) M" where
  "deal_damage ops sk caster target =
     bnd (update_stats caster (\<lambda>s. reduce_sp ops s (sp_cost sk))) (\<lambda>_.
     update_stats target (\<lambda>s. apply_damage ops s (damage sk)))"

text \<open>\<open>caster.battle_queue.add(x)\<close>.\<close>

definition queue_add_of :: "cref \<Rightarrow> cref \<Rightarrow> ('s, unit) M" where
  "queue_add_of caster x = bnd (battle_queue_of caster) (\<lambda>bq. add bq x)"

text \<open>
  The vampire skills heal the caster by the hit points the target lost:
  \<open>caster.set_hp(caster.get_hp() + target_hp - target_new_hp)\<close>.
\<close>

definition vampire_drain :: "'s character_ops \<Rightarrow> basic_skill \<Rightarrow> cref \<Rightarrow> cref \<Rightarrow> ('s, unit) M" where
  "vampire_drain ops sk caster target =
     bnd (char_stats target) (\<lambda>ts.
     let target_hp = get_hp ops ts in
     bnd (deal_damage ops sk caster target) (\<lambda>_.
     bnd (char_stats target) (\<lambda>ts'.
     let target_new_hp = get_hp ops ts' in
     update_stats caster (\<lambda>s. set_hp ops s (get_hp ops s + target_hp - target_new_hp)))))"

text \<open>
  The first loop of \<open>SorcererSpecial.use\<close>:
  \<open>while not caster.battle_queue.is_empty(): c = caster.battle_queue.remove(); ...\<close>.
  Every iteration pops a ticket, so the loop runs at most as often as the queue has
  tickets; the bound \<open>n\<close> is one more than that number.
\<close>

fun drain_queue :: "'s character_ops \<Rightarrow> cref \<Rightarrow> nat \<Rightarrow> cref list \<Rightarrow> ('s, cref list) M" where
  "drain_queue ops caster 0 temp_list = (\<lambda>h. (OutOfFuel, h))"
| "drain_queue ops caster (Suc n) temp_list =
     bnd (battle_queue_of caster) (\<lambda>bq.
     bnd (is_empty ops bq) (\<lambda>e.
       if e then ret temp_list
       else
         bnd (battle_queue_of caster) (\<lambda>bq'.
         bnd (remove ops bq') (\<lambda>c.
           drain_queue ops caster n
             (if c \<in> set temp_list then temp_list else temp_list @ [c])))))"

definition SorcererSpecial_use :: "'s character_ops \<Rightarrow> cref \<Rightarrow> cref \<Rightarrow> ('s, unit) M" where
  "SorcererSpecial_use ops caster target =
     bnd (battle_queue_of caster) (\<lambda>bq.
     bnd (get_queue bq) (\<lambda>Q.
     bnd (drain_queue ops caster (Suc (length (content Q))) []) (\<lambda>temp_list.
     bnd (for_each (\<lambda>c. queue_add_of caster c) temp_list) (\<lambda>_.
     bnd (queue_add_of caster caster) (\<lambda>_.
     deal_damage ops SorcererSpecial caster target)))))"

fun use_basic :: "'s character_ops \<Rightarrow> basic_skill \<Rightarrow> cref \<Rightarrow> cref \<Rightarrow> ('s, unit) M" where
  "use_basic ops MageAttack caster target =
     bnd (deal_damage ops MageAttack caster target) (\<lambda>_. queue_add_of caster caster)"
| "use_basic ops RogueAttack caster target =
     bnd (deal_damage ops RogueAttack caster target) (\<lambda>_. queue_add_of caster caster)"
| "use_basic ops MageSpecial caster target =
     bnd (deal_damage ops MageSpecial caster target) (\<lambda>_.
     bnd (queue_add_of caster target) (\<lambda>_.
     queue_add_of caster caster))"
| "use_basic ops RogueSpecial caster target =
     bnd (deal_damage ops RogueSpecial caster target) (\<lambda>_.
     bnd (queue_add_of caster caster) (\<lambda>_.
     queue_add_of caster caster))"
| "use_basic ops VampireAttack caster target =
     bnd (vampire_drain ops VampireAttack caster target) (\<lambda>_.
     queue_add_of caster caster)"
| "use_basic ops VampireSpecial caster target =
     bnd (vampire_drain ops VampireSpecial caster target) (\<lambda>_.
     bnd (queue_add_of caster caster) (\<lambda>_.
     bnd (queue_add_of caster caster) (\<lambda>_.
     queue_add_of caster target)))"
| "use_basic ops SorcererSpecial caster target = SorcererSpecial_use ops caster target"

text \<open>
  \<open>SorcererAttack.use\<close>: \<open>set_chosen_skill\<close> stores the skill picked by the decision
  tree in \<open>_chosen_skill\<close>, which is read only in the same call; it is a local value
  here.  Calling \<open>pick_skill\<close> on a decision tree that was never set raises
  \<open>AttributeError\<close>.
\<close>

fun use :: "'s character_ops \<Rightarrow> 's skill \<Rightarrow> cref \<Rightarrow> cref \<Rightarrow> ('s, unit) M" where
  "use ops (Basic sk) caster target = use_basic ops sk caster target"
| "use ops (SorcererAttack decision_tree) caster target =
     (case decision_tree of
        None \<Rightarrow> throw AttributeError
      | Some t \<Rightarrow>
          bnd (char_stats caster) (\<lambda>cs.
          bnd (char_stats target) (\<lambda>ts.
            case pick_skill t cs ts of
              None \<Rightarrow> ret ()
            | Some chosen_skill \<Rightarrow>
                bnd (use_basic ops chosen_skill caster target) (\<lambda>_.
                update_stats caster
                  (\<lambda>s. set_sp ops s
                     (get_sp ops s + sp_cost chosen_skill - SorcererAttack_sp_cost))))))"

text \<open>
  Modelled from the spec: \<open>Character.attack()\<close> and \<open>Character.special_attack()\<close>
  (a2\_characters.py is absent) use the character's attack skill, respectively its
  special skill, with the character as caster and its enemy as target.  They are called
  on the result of \<open>peek()\<close>, which may be \<open>None\<close>.
\<close>

definition attack :: "'s character_ops \<Rightarrow> cref option \<Rightarrow> ('s, unit) M" where
  "attack ops x =
     (case x of
        None \<Rightarrow> throw AttributeError
      | Some c \<Rightarrow>
          bnd (char_stats c) (\<lambda>s.
          bnd (char_enemy c) (\<lambda>e.
            case e of
              None \<Rightarrow> throw AttributeError
            | Some t \<Rightarrow> use ops (attack_skill ops s) c t)))"

definition special_attack :: "'s character_ops \<Rightarrow> cref option \<Rightarrow> ('s, unit) M" where
  "special_attack ops x =
     (case x of
        None \<Rightarrow> throw AttributeError
      | Some c \<Rightarrow>
          bnd (char_stats c) (\<lambda>s.
          bnd (char_enemy c) (\<lambda>e.
            case e of
              None \<Rightarrow> throw AttributeError
            | Some t \<Rightarrow> use ops (special_skill ops s) c t)))"

text \<open>\<open>x.get_available_actions()\<close> and \<open>x.enemy\<close> where \<open>x\<close> may be \<open>None\<close>.\<close>

definition available_actions :: "'s character_ops \<Rightarrow> cref option \<Rightarrow> ('s, string list) M" where
  "available_actions ops x =
     (case x of
        None \<Rightarrow> throw AttributeError
      | Some c \<Rightarrow> bnd (char_stats c) (\<lambda>s. ret (get_available_actions ops s)))"

definition enemy_of :: "cref option \<Rightarrow> ('s, cref option) M" where
  "enemy_of x = (case x of None \<Rightarrow> throw AttributeError | Some c \<Rightarrow> char_enemy c)"

section \<open>Scoring and the minimax playstyles (a2\_playstyle.py)\<close>

text \<open>\<open>max(scores)\<close> raises \<open>ValueError\<close> on an empty list.\<close>

definition py_max :: "int list \<Rightarrow> ('s, int) M" where
  "py_max scores =
     (case scores of [] \<Rightarrow> throw ValueError | x # xs \<Rightarrow> ret (fold max xs x))"

text \<open>
  The step shared by the scorer and both playstyles: perform the action with
  \<open>current_player\<close> (anything but \<open>'A'\<close> is the special attack) and, when the
  character still has an available action, remove the front ticket of \<open>temp_bq\<close>.
\<close>

definition perform :: "'s character_ops \<Rightarrow> string \<Rightarrow> cref option \<Rightarrow> qref \<Rightarrow> ('s, unit) M" where
  "perform ops action current_player temp_bq =
     bnd (if action = ''A'' then attack ops current_player
          else special_attack ops current_player) (\<lambda>_.
     bnd (available_actions ops current_player) (\<lambda>acts.
     if acts \<noteq> [] then bnd (remove ops temp_bq) (\<lambda>_. ret ()) else ret ()))"

text \<open>
  \<open>get_state_score_player\<close>.  The recursion ends only when the game ends, which the
  skills in play need not bring about; \<open>fuel\<close> bounds the depth of the recursion and
  \<open>OutOfFuel\<close> is the outcome of a call that did not return within the bound.
\<close>

fun get_state_score_player ::
  "'s character_ops \<Rightarrow> nat \<Rightarrow> cref option \<Rightarrow> qref \<Rightarrow> ('s, int) M" where
  "get_state_score_player ops 0 orignal_player battle_queue = (\<lambda>h. (OutOfFuel, h))"
| "get_state_score_player ops (Suc fuel) orignal_player battle_queue =
     bnd (is_over ops battle_queue) (\<lambda>over.
     if over then
       bnd (get_winner ops battle_queue) (\<lambda>winner.
         case winner of
           Some w \<Rightarrow>
             if orignal_player = Some w then hp_of ops winner
             else bnd (hp_of ops winner) (\<lambda>x. ret (- x))
         | None \<Rightarrow> ret 0)
     else
       bnd (peek ops battle_queue) (\<lambda>front.
       bnd (available_actions ops front) (\<lambda>actions.
       bnd (for_each
              (\<lambda>action.
                 bnd (copy ops battle_queue) (\<lambda>temp_bq.
                 bnd (peek ops temp_bq) (\<lambda>current_player.
                 bnd (peek ops battle_queue) (\<lambda>front'.
                 bnd (if orignal_player = front' then ret current_player
                      else enemy_of current_player) (\<lambda>player.
                 bnd (perform ops action current_player temp_bq) (\<lambda>_.
                 get_state_score_player ops fuel player temp_bq))))))
              actions) (\<lambda>scores.
       py_max scores))))"

definition get_state_score :: "'s character_ops \<Rightarrow> nat \<Rightarrow> qref \<Rightarrow> ('s, int) M" where
  "get_state_score ops fuel battle_queue =
     bnd (copy ops battle_queue) (\<lambda>new_bq.
     bnd (peek ops new_bq) (\<lambda>player.
     get_state_score_player ops fuel player new_bq))"

text \<open>\<open>sys.maxsize\<close> on a 64-bit platform.\<close>

definition maxsize :: int where
  "maxsize = 9223372036854775807"

text \<open>
  \<open>MinimaxRecursivePlaystyle.select_attack\<close>; the loop state is
  \<open>(highest_score, score_attack, score_special_attack)\<close>.
\<close>

definition MinimaxRecursive_select_attack ::
  "'s character_ops \<Rightarrow> nat \<Rightarrow> qref \<Rightarrow> ('s, string) M" where
  "MinimaxRecursive_select_attack ops fuel battle_queue =
     bnd (peek ops battle_queue) (\<lambda>front.
     bnd (available_actions ops front) (\<lambda>actions.
     if actions = [] then ret ''X''
     else
       bnd (for_loop
              (\<lambda>action (highest_score, score_attack, score_special_attack).
                 bnd (copy ops battle_queue) (\<lambda>temp_bq.
                 bnd (get_state_score ops fuel temp_bq) (\<lambda>highest_score'.
                 bnd (peek ops temp_bq) (\<lambda>current_player.
                 bnd (perform ops action current_player temp_bq) (\<lambda>_.
                 bnd (get_state_score_player ops fuel current_player temp_bq) (\<lambda>score.
                 if action = ''A'' then ret (highest_score', score, score_special_attack)
                 else ret (highest_score', score_attack, score)))))))
              actions (- maxsize, - maxsize, - maxsize))
         (\<lambda>(highest_score, score_attack, score_special_attack).
            if highest_score = score_attack then ret ''A''
            else if highest_score = score_special_attack then ret ''S''
            else ret ''X'')))"

text \<open>
  \<open>GameStateNode.__init__\<close>: \<open>self.children = children[:] if children else None\<close>, and
  \<open>highest_score\<close> starts as \<open>None\<close>.
\<close>

definition GameStateNode_init ::
  "qref \<Rightarrow> cref option \<Rightarrow> string \<Rightarrow> nref list option \<Rightarrow> ('s, nref) M" where
  "GameStateNode_init bq player action chs h =
     (Return (length (nodes h)),
      h\<lparr>nodes := nodes h @
         [\<lparr>node_battle_queue = bq, node_current_player = player,
           node_action_taken = action, node_highest_score = None,
           node_children =
             (case chs of None \<Rightarrow> None | Some cs \<Rightarrow> (if cs \<noteq> [] then Some cs else None))\<rparr>]\<rparr>)"

definition get_node :: "nref \<Rightarrow> ('s, node) M" where
  "get_node n h =
     (if n < length (nodes h) then (Return (nodes h ! n), h) else (Raise NoSuchObject, h))"

definition put_node :: "nref \<Rightarrow> node \<Rightarrow> ('s, unit) M" where
  "put_node n N h = (Return (), h\<lparr>nodes := (nodes h)[n := N]\<rparr>)"

definition get_children_nodes :: "'s character_ops \<Rightarrow> nref \<Rightarrow> ('s, nref list) M" where
  "get_children_nodes ops parent_node =
     bnd (get_node parent_node) (\<lambda>P.
     bnd (copy ops (node_battle_queue P)) (\<lambda>bq_copy.
     bnd (peek ops bq_copy) (\<lambda>front.
     bnd (available_actions ops front) (\<lambda>actions.
     for_each
       (\<lambda>action.
          bnd (copy ops bq_copy) (\<lambda>temp_bq.
          bnd (peek ops temp_bq) (\<lambda>current_player.
          bnd (peek ops (node_battle_queue P)) (\<lambda>front'.
          bnd (if node_current_player P = front' then ret current_player
               else enemy_of current_player) (\<lambda>original_player.
          bnd (perform ops action current_player temp_bq) (\<lambda>_.
          GameStateNode_init temp_bq original_player
            (if action = ''A'' then ''A'' else ''S'') None))))))
       actions))))"

text \<open>
  \<open>max([child.highest_score for child in node.children])\<close>: a score may still be
  \<open>None\<close>; \<open>max\<close> of a one-element list returns the element, and comparing \<open>None\<close> with
  another score raises \<open>TypeError\<close>.
\<close>

definition py_max_scores :: "int option list \<Rightarrow> ('s, int option) M" where
  "py_max_scores scores =
     (case scores of
        [] \<Rightarrow> throw ValueError
      | [x] \<Rightarrow> ret x
      | x # xs \<Rightarrow>
          if None \<in> set scores then throw TypeError
          else ret (Some (fold max (map the xs) (the x))))"

text \<open>The last branch of the loop: the score of a node whose game is over.\<close>

definition score_terminal :: "'s character_ops \<Rightarrow> nref \<Rightarrow> ('s, unit) M" where
  "score_terminal ops n =
     bnd (get_node n) (\<lambda>N.
     bnd (get_winner ops (node_battle_queue N)) (\<lambda>winner.
     bnd (get_node n) (\<lambda>N'.
       case winner of
         Some w \<Rightarrow>
           bnd (hp_of ops winner) (\<lambda>x.
             if node_current_player N' = winner then put_node n (N'\<lparr>node_highest_score := Some x\<rparr>)
             else put_node n (N'\<lparr>node_highest_score := Some (- x)\<rparr>))
       | None \<Rightarrow> put_node n (N'\<lparr>node_highest_score := Some 0\<rparr>))))"

text \<open>
  The \<open>while count > 0\<close> loop.  The stack is a Python list: \<open>append\<close> adds at the end
  and \<open>pop()\<close> takes from the end.  \<open>fuel\<close> bounds the number of iterations.
\<close>

fun minimax_loop :: "'s character_ops \<Rightarrow> nat \<Rightarrow> nref list \<Rightarrow> ('s, unit) M" where
  "minimax_loop ops 0 stack = (\<lambda>h. (OutOfFuel, h))"
| "minimax_loop ops (Suc fuel) stack =
     (if stack = [] then ret ()
      else
        let node = last stack; stack' = butlast stack in
        bnd (get_node node) (\<lambda>N.
        bnd (is_over ops (node_battle_queue N)) (\<lambda>over.
        if \<not> over \<and> node_children N = None then
          bnd (get_children_nodes ops node) (\<lambda>children_nodes.
          bnd (get_node node) (\<lambda>N'.
          bnd (put_node node (N'\<lparr>node_children := Some children_nodes\<rparr>)) (\<lambda>_.
          minimax_loop ops fuel (stack' @ [node] @ children_nodes))))
        else
          bnd (is_over ops (node_battle_queue N)) (\<lambda>over'.
          if \<not> over' \<and> node_children N \<noteq> None \<and> node_children N \<noteq> Some [] then
            bnd (for_each (\<lambda>child. bnd (get_node child) (\<lambda>C. ret (node_highest_score C)))
                   (the (node_children N))) (\<lambda>scores.
            bnd (py_max_scores scores) (\<lambda>m.
            bnd (get_node node) (\<lambda>N'.
            bnd (put_node node (N'\<lparr>node_highest_score := m\<rparr>)) (\<lambda>_.
            minimax_loop ops fuel stack'))))
          else
            bnd (score_terminal ops node) (\<lambda>_.
            minimax_loop ops fuel stack')))))"

text \<open>
  The selection after the loop: \<open>for child in root_node.children\<close> raises \<open>TypeError\<close>
  when the attribute is \<open>None\<close>.
\<close>

fun first_matching_child :: "int option \<Rightarrow> string \<Rightarrow> nref list \<Rightarrow> ('s, string) M" where
  "first_matching_child highest_score_root dflt [] = ret dflt"
| "first_matching_child highest_score_root dflt (child # rest) =
     bnd (get_node child) (\<lambda>C.
       if node_highest_score C = highest_score_root then ret (node_action_taken C)
       else first_matching_child highest_score_root dflt rest)"

definition MinimaxIterative_select_attack ::
  "'s character_ops \<Rightarrow> nat \<Rightarrow> qref \<Rightarrow> ('s, string) M" where
  "MinimaxIterative_select_attack ops fuel battle_queue =
     bnd (peek ops battle_queue) (\<lambda>front.
     bnd (available_actions ops front) (\<lambda>actions.
     if actions = [] then ret ''X''
     else
       bnd (copy ops battle_queue) (\<lambda>bq_copy.
       bnd (peek ops bq_copy) (\<lambda>player.
       bnd (GameStateNode_init bq_copy player ''X'' None) (\<lambda>root_node.
       bnd (minimax_loop ops fuel [root_node]) (\<lambda>_.
       bnd (get_node root_node) (\<lambda>R.
         case node_children R of
           None \<Rightarrow> throw TypeError
         | Some chs \<Rightarrow> first_matching_child (node_highest_score R) (node_action_taken R) chs)))))))"

section \<open>An instance of the character methods\<close>

text \<open>
  Modelled from the spec: concrete \<open>Character\<close> methods on which the model is run
  (a2\_characters.py is absent).  The doctests of the sources fix what is used here: a
  \<open>Rogue\<close> and a \<open>Mage\<close> start with 100 hit points and 100 skill points and use the
  rogue and the mage skills; an attack of 15 takes 5 hit points from a rogue and 7 from a
  mage (damage less a defense of 10, respectively 8, and never below zero hit points); a
  rogue with 2 skill points has no available action (an action is available when the
  skill points cover its cost).
\<close>

datatype cclass = Rogue | Mage

record cstate =
  hp :: int
  sp :: int
  cclass :: cclass

definition defense :: "cclass \<Rightarrow> int" where
  "defense k = (case k of Rogue \<Rightarrow> 10 | Mage \<Rightarrow> 8)"

definition example_attack :: "cclass \<Rightarrow> basic_skill" where
  "example_attack k = (case k of Rogue \<Rightarrow> RogueAttack | Mage \<Rightarrow> MageAttack)"

definition example_special :: "cclass \<Rightarrow> basic_skill" where
  "example_special k = (case k of Rogue \<Rightarrow> RogueSpecial | Mage \<Rightarrow> MageSpecial)"

definition example_ops :: "cstate character_ops" where
  "example_ops =
     \<lparr>get_hp = hp,
      get_sp = sp,
      set_hp = (\<lambda>s v. s\<lparr>hp := v\<rparr>),
      set_sp = (\<lambda>s v. s\<lparr>sp := v\<rparr>),
      reduce_sp = (\<lambda>s c. s\<lparr>sp := sp s - c\<rparr>),
      apply_damage = (\<lambda>s d. s\<lparr>hp := max 0 (hp s - max 0 (d - defense (cclass s)))\<rparr>),
      get_available_actions = (\<lambda>s.
        (if sp_cost (example_attack (cclass s)) \<le> sp s then [''A''] else []) @
        (if sp_cost (example_special (cclass s)) \<le> sp s then [''S''] else [])),
      attack_skill = (\<lambda>s. Basic (example_attack (cclass s))),
      special_skill = (\<lambda>s. Basic (example_special (cclass s)))\<rparr>"

text \<open>
  A store with one queue (reference 0) of the given class and tickets, a rogue
  (reference 0, player 1) and a mage (reference 1, player 2), each given as
  (hit points, skill points), enemies of each other.
\<close>

definition example_heap ::
  "qclass \<Rightarrow> int \<times> int \<Rightarrow> int \<times> int \<Rightarrow> cref list \<Rightarrow> bool list \<Rightarrow> cstate heap" where
  "example_heap k r m tickets status =
     \<lparr>chars =
        [\<lparr>stats = \<lparr>hp = fst r, sp = snd r, cclass = Rogue\<rparr>, enemy = Some 1,
          char_battle_queue = 0\<rparr>,
         \<lparr>stats = \<lparr>hp = fst m, sp = snd m, cclass = Mage\<rparr>, enemy = Some 0,
          char_battle_queue = 0\<rparr>],
      queues =
        [\<lparr>qclass = k, content = tickets, p1 = Some 0, p2 = Some 1, add_status = status\<rparr>],
      nodes = []\<rparr>"

section \<open>Auxiliary notions for the proofs\<close>

text \<open>
  What \<open>_clean_queue\<close> computes, as functions of the list of characters: the tickets
  left after purging the front (\<open>None\<close> when a ticket denotes no object), the queue
  object with the purged tickets, and the store after cleaning a queue.
\<close>

fun clean_list :: "'s character_ops \<Rightarrow> 's character list \<Rightarrow> cref list \<Rightarrow> cref list option" where
  "clean_list ops cs [] = Some []"
| "clean_list ops cs (c # xs) =
     (if c < length cs then
        (if get_available_actions ops (stats (cs ! c)) = [] then clean_list ops cs xs
         else Some (c # xs))
      else None)"

definition realign :: "queue \<Rightarrow> cref list \<Rightarrow> queue" where
  "realign Q xs =
     (case qclass Q of
        BattleQueue \<Rightarrow> Q\<lparr>content := xs\<rparr>
      | RestrictedBattleQueue \<Rightarrow>
          Q\<lparr>content := xs,
            add_status := (if xs = [] then []
                           else drop (length (add_status Q) - length xs) (add_status Q))\<rparr>)"

definition clean_heap :: "'s character_ops \<Rightarrow> qref \<Rightarrow> 's heap \<Rightarrow> 's heap" where
  "clean_heap ops q h =
     (if q < length (queues h) then
        (case clean_list ops (chars h) (content (queues h ! q)) of
           Some xs \<Rightarrow> h\<lparr>queues := (queues h)[q := realign (queues h ! q) xs]\<rparr>
         | None \<Rightarrow> h)
      else h)"

text \<open>The hit points of the character at a reference.\<close>

definition hp_at :: "'s character_ops \<Rightarrow> 's heap \<Rightarrow> cref \<Rightarrow> int" where
  "hp_at ops h c = get_hp ops (stats (chars h ! c))"

text \<open>The outcome of \<open>is_over\<close> on a queue that has just been cleaned.\<close>

definition over_result :: "'s character_ops \<Rightarrow> qref \<Rightarrow> 's heap \<Rightarrow> bool outcome" where
  "over_result ops q h =
     (if content (queues h ! q) = [] then Return True
      else case p1 (queues h ! q) of
             None \<Rightarrow> Raise AttributeError
           | Some a \<Rightarrow>
               if \<not> a < length (chars h) then Raise NoSuchObject
               else if hp_at ops h a = 0 then Return True
               else case p2 (queues h ! q) of
                      None \<Rightarrow> Raise AttributeError
                    | Some b \<Rightarrow>
                        if \<not> b < length (chars h) then Raise NoSuchObject
                        else Return (hp_at ops h b = 0))"

text \<open>
  The eligible tickets of a character in a restricted queue: the positions that hold the
  character and whose \<open>_add_status\<close> entry is true.  A restricted queue is in order
  (\<open>rq_ok\<close>) when its status list is as long as its ticket list and no character has
  more than two eligible tickets; \<open>rbq_inv\<close> says so of every restricted queue of the
  store.  \<open>keeps J m\<close>: the call \<open>m\<close> preserves the property \<open>J\<close> of the store,
  whatever its outcome.
\<close>

definition eligible :: "cref \<Rightarrow> cref list \<Rightarrow> bool list \<Rightarrow> nat" where
  "eligible c xs st = length (filter (\<lambda>(x, b). x = c \<and> b) (zip xs st))"

definition rq_ok :: "queue \<Rightarrow> bool" where
  "rq_ok Q \<longleftrightarrow> length (add_status Q) = length (content Q) \<and>
               (\<forall>c. eligible c (content Q) (add_status Q) \<le> 2)"

definition qok :: "queue \<Rightarrow> bool" where
  "qok Q \<longleftrightarrow> (qclass Q = RestrictedBattleQueue \<longrightarrow> rq_ok Q)"

definition rbq_inv :: "'s heap \<Rightarrow> bool" where
  "rbq_inv h \<longleftrightarrow> (\<forall>Q \<in> set (queues h). qclass Q = RestrictedBattleQueue \<longrightarrow> rq_ok Q)"

definition keeps :: "('s heap \<Rightarrow> bool) \<Rightarrow> ('s, 'a) M \<Rightarrow> bool" where
  "keeps J m \<longleftrightarrow> (\<forall>h. J h \<longrightarrow> J (snd (m h)))"

text \<open>
  The stores that a program can reach from the empty store: it creates queues and
  characters, changes characters in any way (their state, their enemy), and calls
  \<open>add\<close>, \<open>remove\<close>, \<open>peek\<close>, \<open>is_empty\<close> and \<open>copy\<close> on queues; a call that
  raises leaves the store as it was when the exception occurred.
\<close>

inductive reachable :: "'s character_ops \<Rightarrow> 's heap \<Rightarrow> bool" for ops :: "'s character_ops" where
  empty_store: "reachable ops \<lparr>chars = [], queues = [], nodes = []\<rparr>"
| new_queue: "reachable ops h \<Longrightarrow> reachable ops (snd (RestrictedBattleQueue_init h))"
| new_base_queue: "reachable ops h \<Longrightarrow> reachable ops (snd (BattleQueue_init h))"
| characters: "reachable ops h \<Longrightarrow> queues h' = queues h \<Longrightarrow> reachable ops h'"
| add: "reachable ops h \<Longrightarrow> reachable ops (snd (add q c h))"
| remove: "reachable ops h \<Longrightarrow> reachable ops (snd (remove ops q h))"
| peek: "reachable ops h \<Longrightarrow> reachable ops (snd (peek ops q h))"
| is_empty: "reachable ops h \<Longrightarrow> reachable ops (snd (is_empty ops q h))"
| copy: "reachable ops h \<Longrightarrow> reachable ops (snd (copy ops q h))"

text \<open>
  A restricted queue to which the rogue was added three times: the third ticket is not
  eligible.
\<close>

definition example_restricted :: "cstate heap" where
  "example_restricted =
     snd (add 0 0 (snd (add 0 0 (snd (add 0 0
       ((snd (RestrictedBattleQueue_init \<lparr>chars = [], queues = [], nodes = []\<rparr>))
          \<lparr>chars := chars (example_heap RestrictedBattleQueue (100, 100) (100, 100) [] [])\<rparr>))))))"

text \<open>
  Objects made after a given store \<open>h0\<close> was in place are called new: their references
  lie beyond the objects of \<open>h0\<close>.  An object is closed when every reference it holds
  denotes a new object.  \<open>unchanged h0 h\<close> says that every object of \<open>h0\<close> is in \<open>h\<close>
  exactly as it was: same state (hit points, skill points), same enemy and queue, same
  tickets in the same order, same players.  \<open>fresh_inv h0 h\<close> adds that the new
  objects of \<open>h\<close> are closed, and \<open>ok h0 m R\<close> that the call \<open>m\<close> preserves
  \<open>fresh_inv h0\<close>, whatever its outcome, and returns only results that satisfy \<open>R\<close>.
\<close>

definition newc :: "'s heap \<Rightarrow> cref \<Rightarrow> bool" where
  "newc h0 c \<longleftrightarrow> length (chars h0) \<le> c"

definition newq :: "'s heap \<Rightarrow> qref \<Rightarrow> bool" where
  "newq h0 q \<longleftrightarrow> length (queues h0) \<le> q"

definition newn :: "'s heap \<Rightarrow> nref \<Rightarrow> bool" where
  "newn h0 i \<longleftrightarrow> length (nodes h0) \<le> i"

definition newco :: "'s heap \<Rightarrow> cref option \<Rightarrow> bool" where
  "newco h0 x \<longleftrightarrow> (\<forall>c. x = Some c \<longrightarrow> newc h0 c)"

definition closed_char :: "'s heap \<Rightarrow> 's character \<Rightarrow> bool" where
  "closed_char h0 C \<longleftrightarrow> newq h0 (char_battle_queue C) \<and> newco h0 (enemy C)"

definition closed_queue :: "'s heap \<Rightarrow> queue \<Rightarrow> bool" where
  "closed_queue h0 Q \<longleftrightarrow> (\<forall>c \<in> set (content Q). newc h0 c) \<and> newco h0 (p1 Q) \<and> newco h0 (p2 Q)"

definition closed_node :: "'s heap \<Rightarrow> node \<Rightarrow> bool" where
  "closed_node h0 N \<longleftrightarrow> newq h0 (node_battle_queue N) \<and> newco h0 (node_current_player N) \<and>
     (\<forall>cs. node_children N = Some cs \<longrightarrow> (\<forall>i \<in> set cs. newn h0 i))"

definition unchanged :: "'s heap \<Rightarrow> 's heap \<Rightarrow> bool" where
  "unchanged h0 h \<longleftrightarrow>
     take (length (chars h0)) (chars h) = chars h0 \<and>
     take (length (queues h0)) (queues h) = queues h0 \<and>
     take (length (nodes h0)) (nodes h) = nodes h0"

definition fresh_inv :: "'s heap \<Rightarrow> 's heap \<Rightarrow> bool" where
  "fresh_inv h0 h \<longleftrightarrow>
     unchanged h0 h \<and>
     (\<forall>c. newc h0 c \<and> c < length (chars h) \<longrightarrow> closed_char h0 (chars h ! c)) \<and>
     (\<forall>q. newq h0 q \<and> q < length (queues h) \<longrightarrow> closed_queue h0 (queues h ! q)) \<and>
     (\<forall>i. newn h0 i \<and> i < length (nodes h) \<longrightarrow> closed_node h0 (nodes h ! i))"

definition ok :: "'s heap \<Rightarrow> ('s, 'a) M \<Rightarrow> ('a \<Rightarrow> bool) \<Rightarrow> bool" where
  "ok h0 m R \<longleftrightarrow>
     (\<forall>h r h'. fresh_inv h0 h \<longrightarrow> m h = (r, h') \<longrightarrow>
        fresh_inv h0 h' \<and> (\<forall>x. r = Return x \<longrightarrow> R x))"

text \<open>
  The mutations that a caller can apply to a queue: adding a ticket for one of its
  players, removing the front ticket, inspecting it, and letting one of its players
  attack.  \<open>run_mutations\<close> applies a sequence of them, going on after a call that
  raised.
\<close>

datatype who = Player1 | Player2

datatype mutation = Add who | Remove | Peek | IsEmpty | Attack who | SpecialAttack who

definition player :: "queue \<Rightarrow> who \<Rightarrow> cref option" where
  "player Q w = (case w of Player1 \<Rightarrow> p1 Q | Player2 \<Rightarrow> p2 Q)"

definition mutate :: "'s character_ops \<Rightarrow> qref \<Rightarrow> mutation \<Rightarrow> ('s, unit) M" where
  "mutate ops q mu =
     (case mu of
        Add w \<Rightarrow>
          bnd (get_queue q) (\<lambda>Q.
            case player Q w of None \<Rightarrow> ret () | Some c \<Rightarrow> add q c)
      | Remove \<Rightarrow> bnd (remove ops q) (\<lambda>_. ret ())
      | Peek \<Rightarrow> bnd (peek ops q) (\<lambda>_. ret ())
      | IsEmpty \<Rightarrow> bnd (is_empty ops q) (\<lambda>_. ret ())
      | Attack w \<Rightarrow> bnd (get_queue q) (\<lambda>Q. attack ops (player Q w))
      | SpecialAttack w \<Rightarrow> bnd (get_queue q) (\<lambda>Q. special_attack ops (player Q w)))"

fun run_mutations :: "'s character_ops \<Rightarrow> qref \<Rightarrow> mutation list \<Rightarrow> 's heap \<Rightarrow> 's heap" where
  "run_mutations ops q [] h = h"
| "run_mutations ops q (mu # mus) h = run_mutations ops q mus (snd (mutate ops q mu h))"

text \<open>
  The mage (100 hit points, 100 skill points) behind a ticket of the rogue, who has 5 hit
  points and, with 2 skill points, no available action.
\<close>

definition example_stale :: "cstate heap" where
  "example_stale = example_heap BattleQueue (5, 2) (100, 100) [0, 1] []"

text \<open>A rogue and a mage, both with 100 hit points and 100 skill points.\<close>

definition example_start :: "cstate heap" where
  "example_start = example_heap BattleQueue (100, 100) (100, 100) [0, 1] []"

definition example_mutations :: "mutation list" where
  "example_mutations =
     [Attack Player1, Remove, SpecialAttack Player2, Add Player1, Remove, Peek, IsEmpty]"

text \<open>
  \<open>keeps_players q h h'\<close>: from \<open>h\<close> to \<open>h'\<close> no character changed, no queue was
  made, and queue \<open>q\<close> kept its class and, once they are assigned, its players.
\<close>

definition keeps_players :: "qref \<Rightarrow> 's heap \<Rightarrow> 's heap \<Rightarrow> bool" where
  "keeps_players q h h' \<longleftrightarrow>
     chars h' = chars h \<and> nodes h' = nodes h \<and> length (queues h') = length (queues h) \<and>
     (p1 (queues h ! q) \<noteq> None \<longrightarrow>
        p1 (queues h' ! q) = p1 (queues h ! q) \<and> p2 (queues h' ! q) = p2 (queues h ! q)) \<and>
     (qclass (queues h' ! q) = qclass (queues h ! q))"

section \<open>Basic facts about the store and the queue methods\<close>

lemma bnd_ret [simp]: "bnd (ret x) f = f x"
  by (rule ext) (simp add: bnd_def ret_def)

lemma bnd_throw [simp]: "bnd (throw e) f = throw e"
  by (rule ext) (simp add: bnd_def throw_def)

lemma char_stats_eq:
  "char_stats c h = (if c < length (chars h) then (Return (stats (chars h ! c)), h)
                     else (Raise NoSuchObject, h))"
  by (simp add: char_stats_def get_char_def bnd_def ret_def)

lemma clean_content_eq:
  "clean_content ops xs h =
     (case clean_list ops (chars h) xs of
        Some ys \<Rightarrow> (Return ys, h) | None \<Rightarrow> (Raise NoSuchObject, h))"
  by (induction xs) (simp_all add: ret_def bnd_def char_stats_eq)

lemma clean_list_idem: "clean_list ops cs xs = Some ys \<Longrightarrow> clean_list ops cs ys = Some ys"
  by (induction xs) (auto split: if_splits)

lemma clean_list_suffix: "clean_list ops cs xs = Some ys \<Longrightarrow> \<exists>zs. xs = zs @ ys"
proof (induction xs)
  case Nil
  then show ?case by simp
next
  case (Cons c xs)
  show ?case
  proof (cases "clean_list ops cs xs = Some ys \<and> get_available_actions ops (stats (cs ! c)) = []")
    case True
    then obtain zs where "xs = zs @ ys" using Cons.IH by blast
    then have "c # xs = (c # zs) @ ys" by simp
    then show ?thesis by blast
  next
    case False
    with Cons.prems have "ys = c # xs" by (auto split: if_splits)
    then show ?thesis by simp
  qed
qed

lemma clean_queue_eq:
  "clean_queue ops q h =
     (if q < length (queues h) \<and> clean_list ops (chars h) (content (queues h ! q)) \<noteq> None
      then (Return (), clean_heap ops q h) else (Raise NoSuchObject, h))"
  by (auto simp: clean_queue_def get_queue_def bnd_def clean_content_eq clean_heap_def
        realign_def put_queue_def split: option.splits qclass.splits)

lemma realign_fields [simp]:
  "p1 (realign Q xs) = p1 Q" "p2 (realign Q xs) = p2 Q" "qclass (realign Q xs) = qclass Q"
  "content (realign Q xs) = xs"
  by (simp_all add: realign_def split: qclass.splits)

lemma realign_same [simp]: "realign (realign Q xs) xs = realign Q xs"
  by (cases Q) (auto simp: realign_def split: qclass.splits)

lemma chars_clean_heap [simp]: "chars (clean_heap ops q h) = chars h"
  by (simp add: clean_heap_def split: option.splits)

lemma length_queues_clean_heap [simp]: "length (queues (clean_heap ops q h)) = length (queues h)"
  by (simp add: clean_heap_def split: option.splits)

lemma p1_clean_heap [simp]: "p1 (queues (clean_heap ops q h) ! q') = p1 (queues h ! q')"
  by (cases "q' = q") (auto simp: clean_heap_def split: option.splits)

lemma p2_clean_heap [simp]: "p2 (queues (clean_heap ops q h) ! q') = p2 (queues h ! q')"
  by (cases "q' = q") (auto simp: clean_heap_def split: option.splits)

lemma hp_at_clean_heap [simp]: "hp_at ops (clean_heap ops' q h) c = hp_at ops h c"
  by (simp add: hp_at_def)

lemma clean_heap_idem [simp]: "clean_heap ops q (clean_heap ops q h) = clean_heap ops q h"
  by (auto simp: clean_heap_def clean_list_idem split: option.splits)

lemma clean_queue_again:
  "clean_queue ops q h = (Return (), h') \<Longrightarrow> clean_queue ops q h' = (Return (), h')"
  by (auto simp: clean_queue_eq clean_heap_def clean_list_idem split: if_splits option.splits)

lemma clean_queue_result: "clean_queue ops q h = (r, h') \<Longrightarrow> h' = snd (clean_queue ops q h)"
  by simp

lemma get_queue_eq:
  "get_queue q h = (if q < length (queues h) then (Return (queues h ! q), h) else (Raise NoSuchObject, h))"
  by (simp add: get_queue_def)

lemma hp_of_eq:
  "hp_of ops x h =
     (case x of None \<Rightarrow> (Raise AttributeError, h)
      | Some c \<Rightarrow> if c < length (chars h) then (Return (hp_at ops h c), h)
                  else (Raise NoSuchObject, h))"
  by (simp add: hp_of_def throw_def bnd_def char_stats_eq ret_def hp_at_def split: option.splits)

lemma is_empty_eq:
  "is_empty ops q h =
     (case clean_queue ops q h of
        (Return _, h1) \<Rightarrow> (Return (content (queues h1 ! q) = []), h1)
      | (Raise e, h1) \<Rightarrow> (Raise e, h1)
      | (OutOfFuel, h1) \<Rightarrow> (OutOfFuel, h1))"
  by (auto simp: is_empty_def bnd_def clean_queue_eq get_queue_eq ret_def)

lemma peek_eq:
  "peek ops q h =
     (case clean_queue ops q h of
        (Return _, h1) \<Rightarrow>
          (Return (case content (queues h1 ! q) of c # _ \<Rightarrow> Some c | [] \<Rightarrow> p1 (queues h ! q)), h1)
      | (Raise e, h1) \<Rightarrow> (Raise e, h1)
      | (OutOfFuel, h1) \<Rightarrow> (OutOfFuel, h1))"
  by (auto simp: peek_def bnd_def clean_queue_eq get_queue_eq ret_def split: list.splits)

lemma is_over_eq:
  "is_over ops q h =
     (case clean_queue ops q h of
        (Return _, h1) \<Rightarrow> (over_result ops q h1, h1)
      | (Raise e, h1) \<Rightarrow> (Raise e, h1)
      | (OutOfFuel, h1) \<Rightarrow> (OutOfFuel, h1))"
  by (auto simp: is_over_def bnd_def is_empty_eq clean_queue_eq get_queue_eq ret_def hp_of_eq
        over_result_def split: option.splits)

lemma is_over_Return:
  assumes "is_over ops q h = (Return b, h')"
  shows "clean_queue ops q h = (Return (), h')" and "over_result ops q h' = Return b"
    and "h' = clean_heap ops q h"
  using assms by (auto simp: is_over_eq clean_queue_eq split: if_splits)

lemma is_over_again:
  assumes "is_over ops q h = (Return b, h')"
  shows "is_over ops q h' = (Return b, h')"
  using is_over_Return [OF assms] by (simp add: is_over_eq clean_queue_again)

lemma get_winner_over:
  assumes over: "is_over ops q h = (Return True, h')"
      and pa: "p1 (queues h ! q) = Some a" and pb: "p2 (queues h ! q) = Some b"
      and va: "a < length (chars h)" and vb: "b < length (chars h)"
  shows "get_winner ops q h =
           (Return (if hp_at ops h a = 0 then Some b
                    else if hp_at ops h b = 0 then Some a else None), h')"
proof -
  note R = is_over_Return [OF over]
  have q: "q < length (queues h')" using R(1) by (simp add: clean_queue_eq R(3) split: if_splits)
  show ?thesis
    using pa pb va vb q
    by (simp add: get_winner_def bnd_def over get_queue_eq hp_of_eq ret_def R(3))
qed

lemma get_winner_not_over:
  assumes "is_over ops q h = (Return False, h')"
  shows "get_winner ops q h = (Return None, h')"
  by (simp add: get_winner_def bnd_def assms ret_def)

lemma terminal_score_code:
  assumes over: "is_over ops q h = (Return True, h')"
      and pa: "p1 (queues h ! q) = Some a" and pb: "p2 (queues h ! q) = Some b"
      and va: "a < length (chars h)" and vb: "b < length (chars h)"
  shows "get_state_score_player ops (Suc fuel) p q h =
           (Return (if hp_at ops h a = 0
                    then (if p = Some b then hp_at ops h b else - hp_at ops h b)
                    else if hp_at ops h b = 0
                    then (if p = Some a then hp_at ops h a else - hp_at ops h a)
                    else 0), h')"
proof -
  note R = is_over_Return [OF over]
  have over': "is_over ops q h' = (Return True, h')" using over by (rule is_over_again)
  have pa': "p1 (queues h' ! q) = Some a" and pb': "p2 (queues h' ! q) = Some b"
    and va': "a < length (chars h')" and vb': "b < length (chars h')"
    using pa pb va vb by (simp_all add: R(3))
  have w: "get_winner ops q h' =
           (Return (if hp_at ops h a = 0 then Some b
                    else if hp_at ops h b = 0 then Some a else None), h')"
    using get_winner_over [OF over' pa' pb' va' vb'] by (simp add: R(3))
  have hp: "\<And>c. hp_at ops h' c = hp_at ops h c" by (simp add: R(3))
  show ?thesis
    using va' vb' by (simp add: bnd_def over w hp_of_eq hp ret_def)
qed

lemma peek_fresh:
  "peek ops (length (queues h)) (snd (BattleQueue_init h)) = (Return None, snd (BattleQueue_init h))"
  by (simp add: peek_eq BattleQueue_init_def clean_queue_eq clean_heap_def realign_def)

lemmas queue_defs = ret_def throw_def bnd_def get_char_def put_char_def char_stats_def
  char_enemy_def battle_queue_of_def update_stats_def set_enemy_def get_queue_def put_queue_def
  BattleQueue_init_def RestrictedBattleQueue_init_def clean_queue_def BattleQueue_add_def
  get_add_ability_count_def append_ticket_def RestrictedBattleQueue_add_def add_def
  BattleQueue_remove_def RestrictedBattleQueue_remove_def remove_def is_empty_def peek_def
  hp_of_def is_over_def get_winner_def Character_copy_def copy_body_def BattleQueue_copy_def
  RestrictedBattleQueue_copy_def copy_def

lemmas play_defs = deal_damage_def queue_add_of_def vampire_drain_def SorcererSpecial_use_def
  attack_def special_attack_def available_actions_def enemy_of_def py_max_def perform_def
  get_state_score_def MinimaxRecursive_select_attack_def GameStateNode_init_def get_node_def
  put_node_def get_children_nodes_def py_max_scores_def score_terminal_def
  MinimaxIterative_select_attack_def maxsize_def SorcererAttack_sp_cost_def

lemmas example_defs = example_heap_def example_ops_def defense_def example_attack_def
  example_special_def

section \<open>The eligibility cap of the restricted queue\<close>

lemma count_add_ability_eligible:
  "length st = length xs \<Longrightarrow> count_add_ability c xs st = Inr (eligible c xs st)"
proof (induction xs arbitrary: st)
  case Nil
  then show ?case by (simp add: eligible_def)
next
  case (Cons x xs)
  then obtain b bs where st: "st = b # bs" by (cases st) auto
  with Cons.prems have "length bs = length xs" by simp
  from Cons.IH [OF this] show ?case by (simp add: st eligible_def)
qed

lemma eligible_append:
  "length st = length xs \<Longrightarrow>
   eligible c (xs @ [x]) (st @ [b]) = eligible c xs st + (if x = c \<and> b then 1 else 0)"
  by (simp add: eligible_def)

lemma eligible_drop: "eligible c (drop k xs) (drop k st) \<le> eligible c xs st"
proof -
  have "zip xs st = take k (zip xs st) @ drop k (zip xs st)" by simp
  then have "filter (\<lambda>(x, b). x = c \<and> b) (zip xs st) =
      filter (\<lambda>(x, b). x = c \<and> b) (take k (zip xs st)) @
      filter (\<lambda>(x, b). x = c \<and> b) (drop k (zip xs st))"
    by (metis filter_append)
  then show ?thesis by (simp add: eligible_def drop_zip)
qed

lemma eligible_none: "c \<notin> set xs \<Longrightarrow> eligible c xs st = 0"
  by (auto simp: eligible_def filter_empty_conv dest: set_zip_leftD)

lemma rq_ok_drop:
  assumes "rq_ok Q"
  shows "rq_ok (Q\<lparr>content := drop k (content Q), add_status := drop k (add_status Q)\<rparr>)"
  using assms eligible_drop [of _ k "content Q" "add_status Q"]
  by (auto simp: rq_ok_def intro: order_trans)

lemma rq_ok_p [simp]: "rq_ok (Q\<lparr>p1 := a, p2 := b\<rparr>) = rq_ok Q"
  by (simp add: rq_ok_def)

lemma rq_ok_append:
  assumes "rq_ok Q" and "b \<longrightarrow> eligible c (content Q) (add_status Q) < 2"
  shows "rq_ok (Q\<lparr>content := content Q @ [c], add_status := add_status Q @ [b]\<rparr>)"
  using assms by (auto simp: rq_ok_def eligible_append)

lemma rbq_inv_update:
  assumes "rbq_inv h" and "qclass Q = RestrictedBattleQueue \<longrightarrow> rq_ok Q"
  shows "rbq_inv (h\<lparr>queues := (queues h)[q := Q]\<rparr>)"
  using assms by (auto simp: rbq_inv_def dest!: set_update_subset_insert [THEN subsetD])

lemma rbq_inv_nth:
  "rbq_inv h \<Longrightarrow> q < length (queues h) \<Longrightarrow> qclass (queues h ! q) = RestrictedBattleQueue
     \<Longrightarrow> rq_ok (queues h ! q)"
  by (simp add: rbq_inv_def)

lemma rbq_inv_chars [simp]: "rbq_inv (h\<lparr>chars := cs\<rparr>) = rbq_inv h"
  by (simp add: rbq_inv_def)

lemma rbq_inv_nodes [simp]: "rbq_inv (h\<lparr>nodes := ns\<rparr>) = rbq_inv h"
  by (simp add: rbq_inv_def)

lemma keeps_bnd: "keeps J m \<Longrightarrow> (\<And>x. keeps J (f x)) \<Longrightarrow> keeps J (bnd m f)"
  unfolding keeps_def bnd_def
  by (auto split: prod.splits outcome.splits)

lemma keeps_ret [simp]: "keeps J (ret x)" by (simp add: keeps_def ret_def)

lemma keeps_throw [simp]: "keeps J (throw e)" by (simp add: keeps_def throw_def)

lemma keeps_if: "(b \<Longrightarrow> keeps J m) \<Longrightarrow> (\<not> b \<Longrightarrow> keeps J m') \<Longrightarrow> keeps J (if b then m else m')"
  by simp

lemma keeps_for_each: "(\<And>x. keeps J (f x)) \<Longrightarrow> keeps J (for_each f xs)"
  by (induction xs) (auto intro!: keeps_bnd)

lemma char_enemy_eq:
  "char_enemy c h = (if c < length (chars h) then (Return (enemy (chars h ! c)), h)
                     else (Raise NoSuchObject, h))"
  by (simp add: char_enemy_def get_char_def bnd_def ret_def)

lemma keeps_put_queue:
  "(qclass Q = RestrictedBattleQueue \<longrightarrow> rq_ok Q) \<Longrightarrow> keeps rbq_inv (put_queue q Q)"
  by (simp add: keeps_def put_queue_def rbq_inv_update)

lemma keeps_read: "(\<And>h. snd (m h) = h) \<Longrightarrow> keeps J m"
  by (simp add: keeps_def)

lemma keeps_get_queue [simp]: "keeps J (get_queue q)"
  by (rule keeps_read) (simp add: get_queue_def)

lemma keeps_get_char [simp]: "keeps J (get_char c)"
  by (rule keeps_read) (simp add: get_char_def)

lemma rbq_inv_qok: "rbq_inv h \<Longrightarrow> q < length (queues h) \<Longrightarrow> qok (queues h ! q)"
  by (simp add: rbq_inv_def qok_def)

lemma rbq_inv_put: "rbq_inv h \<Longrightarrow> qok Q \<Longrightarrow> rbq_inv (h\<lparr>queues := (queues h)[q := Q]\<rparr>)"
  by (rule rbq_inv_update) (simp_all add: qok_def)

lemma qok_p [simp]: "qok (Q\<lparr>p1 := a, p2 := b\<rparr>) = qok Q"
  by (simp add: qok_def)

lemma qok_append:
  "qok Q \<Longrightarrow> (rq_ok Q \<Longrightarrow> b \<Longrightarrow> eligible c (content Q) (add_status Q) < 2) \<Longrightarrow>
   qok (Q\<lparr>content := content Q @ [c], add_status := add_status Q @ [b]\<rparr>)"
  by (auto simp: qok_def intro!: rq_ok_append)

lemma append_ticket_eq:
  "append_ticket q c b h =
     (if q < length (queues h)
      then (Return (), h\<lparr>queues := (queues h)[q := (queues h ! q)\<lparr>content := content (queues h ! q) @ [c],
                add_status := add_status (queues h ! q) @ [b]\<rparr>]\<rparr>)
      else (Raise NoSuchObject, h))"
  by (simp add: append_ticket_def bnd_def get_queue_eq put_queue_def)

lemma append_ticket_inv:
  assumes "rbq_inv h"
      and "q < length (queues h) \<Longrightarrow> rq_ok (queues h ! q) \<Longrightarrow> b \<Longrightarrow>
             eligible c (content (queues h ! q)) (add_status (queues h ! q)) < 2"
  shows "rbq_inv (snd (append_ticket q c b h))"
  using assms by (auto simp: append_ticket_eq intro!: rbq_inv_put qok_append rbq_inv_qok)

lemma get_add_ability_count_eq:
  "get_add_ability_count q c h =
     (if q < length (queues h) then
        (case count_add_ability c (content (queues h ! q)) (add_status (queues h ! q)) of
           Inl e \<Rightarrow> (Raise e, h) | Inr n \<Rightarrow> (Return n, h))
      else (Raise NoSuchObject, h))"
  by (simp add: get_add_ability_count_def bnd_def get_queue_eq throw_def ret_def split: sum.splits)

lemma radd_tail_inv:
  assumes J: "rbq_inv h"
  shows "rbq_inv (snd ((bnd (get_queue q) (\<lambda>Q.
     let exist_count = length (filter (\<lambda>x. x = c) (content Q)) in
     if exist_count = 0 then append_ticket q c True
     else
       (case content Q of
          [] \<Rightarrow> throw IndexError
        | front_c # _ \<Rightarrow>
            (case add_status Q of
               [] \<Rightarrow> throw IndexError
             | front_c_add_status # _ \<Rightarrow>
                 if front_c_add_status then
                   (if front_c = c then
                      bnd (get_add_ability_count q front_c) (\<lambda>add_ability_count.
                        if add_ability_count \<ge> 2 then append_ticket q c False
                        else append_ticket q c True)
                    else append_ticket q c False)
                 else ret ())))) h))"
proof (cases "q < length (queues h)")
  case False
  then show ?thesis using J by (simp add: bnd_def get_queue_eq)
next
  case q: True
  let ?Q = "queues h ! q"
  show ?thesis
  proof (cases "filter (\<lambda>x. x = c) (content ?Q) = []")
    case True
    then have "c \<notin> set (content ?Q)" by (auto simp: filter_empty_conv)
    then have "eligible c (content ?Q) (add_status ?Q) = 0" by (rule eligible_none)
    then have "rbq_inv (snd (append_ticket q c True h))"
      using J by (intro append_ticket_inv) simp_all
    then show ?thesis using q True by (simp add: bnd_def get_queue_eq)
  next
    case ne: False
    show ?thesis
    proof (cases "qclass ?Q = RestrictedBattleQueue")
      case True
      then have ok: "rq_ok ?Q" using J q by (simp add: rbq_inv_def)
      then have len: "length (add_status ?Q) = length (content ?Q)" by (simp add: rq_ok_def)
      have cnt: "count_add_ability c (content ?Q) (add_status ?Q)
                   = Inr (eligible c (content ?Q) (add_status ?Q))"
        using len by (rule count_add_ability_eligible)
      have a1: "rbq_inv (snd (append_ticket q c False h))"
        using J by (intro append_ticket_inv) simp_all
      have a2: "eligible c (content ?Q) (add_status ?Q) < 2 \<Longrightarrow>
                rbq_inv (snd (append_ticket q c True h))"
        using J by (intro append_ticket_inv) simp_all
      show ?thesis
        using q ne J a1 a2 cnt
        by (auto simp: bnd_def get_queue_eq Let_def throw_def ret_def get_add_ability_count_eq
              split: list.splits)
    next
      case False
      have a: "\<And>b. rbq_inv (snd (append_ticket q c b h))"
        using J q False
        by (auto simp: append_ticket_eq qok_def intro!: rbq_inv_put)
      show ?thesis
        using q ne J a
        by (auto simp: bnd_def get_queue_eq Let_def throw_def ret_def get_add_ability_count_eq
              split: list.splits sum.splits)
    qed
  qed
qed

lemma radd_keeps: "keeps rbq_inv (RestrictedBattleQueue_add q c)"
  unfolding keeps_def
proof (intro allI impI)
  fix h :: "'a heap"
  assume J: "rbq_inv h"
  show "rbq_inv (snd (RestrictedBattleQueue_add q c h))"
  proof (cases "q < length (queues h)")
    case False
    then show ?thesis using J by (simp add: RestrictedBattleQueue_add_def bnd_def get_queue_eq)
  next
    case q: True
    let ?Q = "queues h ! q"
    have qok: "qok ?Q" using J q by (rule rbq_inv_qok)
    show ?thesis
    proof (cases "p1 ?Q = None \<and> c < length (chars h)")
      case True
      let ?h1 = "h\<lparr>queues := (queues h)[q := ?Q\<lparr>p1 := Some c, p2 := enemy (chars h ! c)\<rparr>]\<rparr>"
      have "rbq_inv ?h1" using J qok by (intro rbq_inv_put) simp_all
      from radd_tail_inv [OF this, of q c] show ?thesis
        using q True
        by (simp add: RestrictedBattleQueue_add_def bnd_def [of "get_queue q"] get_queue_eq
              bnd_def [of "bnd (char_enemy c) _"] bnd_def [of "char_enemy c"] char_enemy_eq
              put_queue_def)
    next
      case False
      from radd_tail_inv [OF J, of q c] show ?thesis
        using q False J
        by (auto simp add: RestrictedBattleQueue_add_def bnd_def [of "get_queue q"] get_queue_eq
              bnd_def [of "bnd (char_enemy c) _"] bnd_def [of "char_enemy c"] char_enemy_eq
              bnd_def [of "ret ()"] ret_def)
    qed
  qed
qed

lemma add_keeps: "keeps rbq_inv (add q c)"
  unfolding keeps_def
proof (intro allI impI)
  fix h :: "'a heap"
  assume J: "rbq_inv h"
  show "rbq_inv (snd (add q c h))"
  proof (cases "q < length (queues h)")
    case False
    then show ?thesis using J by (simp add: add_def bnd_def get_queue_eq)
  next
    case q: True
    show ?thesis
    proof (cases "qclass (queues h ! q)")
      case BattleQueue
      have "\<And>Q. qclass Q = BattleQueue \<Longrightarrow> qok Q" by (simp add: qok_def)
      then show ?thesis
        using q J BattleQueue
        by (auto simp: add_def BattleQueue_add_def bnd_def get_queue_eq put_queue_def
              char_enemy_eq ret_def intro!: rbq_inv_put)
    next
      case RestrictedBattleQueue
      have "rbq_inv (snd (RestrictedBattleQueue_add q c h))"
        using radd_keeps [of q c] J unfolding keeps_def by blast
      then show ?thesis
        using q RestrictedBattleQueue
        by (simp add: add_def bnd_def [of "get_queue q"] get_queue_eq)
    qed
  qed
qed

lemma qok_realign:
  assumes "qok Q" and "content Q = zs @ xs"
  shows "qok (realign Q xs)"
proof (cases "qclass Q")
  case BattleQueue
  then show ?thesis by (simp add: qok_def realign_def)
next
  case RestrictedBattleQueue
  with assms(1) have ok: "rq_ok Q" by (simp add: qok_def)
  then have len: "length (add_status Q) = length zs + length xs"
    using assms(2) by (simp add: rq_ok_def)
  have xs: "xs = drop (length zs) (content Q)" using assms(2) by simp
  from rq_ok_drop [OF ok, of "length zs"]
  have d: "rq_ok (Q\<lparr>content := xs, add_status := drop (length zs) (add_status Q)\<rparr>)"
    using xs by simp
  show ?thesis
  proof (cases "xs = []")
    case True
    then show ?thesis using RestrictedBattleQueue
      by (simp add: qok_def realign_def rq_ok_def eligible_def)
  next
    case False
    then show ?thesis using RestrictedBattleQueue d len
      by (simp add: qok_def realign_def)
  qed
qed

lemma clean_heap_inv: "rbq_inv h \<Longrightarrow> rbq_inv (clean_heap ops q h)"
  by (auto simp: clean_heap_def split: option.splits
        dest!: clean_list_suffix intro!: rbq_inv_put qok_realign rbq_inv_qok)

lemma clean_queue_keeps: "keeps rbq_inv (clean_queue ops q)"
  by (simp add: keeps_def clean_queue_eq clean_heap_inv)

lemma is_empty_keeps: "keeps rbq_inv (is_empty ops q)"
  unfolding is_empty_def by (intro keeps_bnd clean_queue_keeps keeps_get_queue keeps_ret)

lemma peek_keeps: "keeps rbq_inv (peek ops q)"
  unfolding peek_def
  by (intro keeps_bnd clean_queue_keeps keeps_get_queue) (simp split: list.splits)

lemma qok_pop:
  assumes "qok Q" and "content Q = c # rest" and "add_status Q = b # st"
  shows "qok (Q\<lparr>add_status := st, content := rest\<rparr>)"
proof (cases "qclass Q")
  case BattleQueue
  then show ?thesis by (simp add: qok_def)
next
  case RestrictedBattleQueue
  with assms(1) have "rq_ok Q" by (simp add: qok_def)
  from rq_ok_drop [OF this, of 1] show ?thesis
    using assms(2,3) RestrictedBattleQueue by (cases Q) (simp add: qok_def)
qed

lemma remove_tail_inv:
  assumes J: "rbq_inv h"
  shows "rbq_inv (snd (bnd (get_queue q) (\<lambda>Q.
           case qclass Q of
             BattleQueue \<Rightarrow> bnd (get_queue q) (\<lambda>Q.
               case content Q of
                 [] \<Rightarrow> throw IndexError
               | c # rest \<Rightarrow> bnd (put_queue q (Q\<lparr>content := rest\<rparr>)) (\<lambda>_. ret c))
           | RestrictedBattleQueue \<Rightarrow> bnd (get_queue q) (\<lambda>Q.
               case add_status Q of
                 [] \<Rightarrow> throw IndexError
               | _ # st \<Rightarrow>
                   bnd (put_queue q (Q\<lparr>add_status := st\<rparr>)) (\<lambda>_.
                     case content Q of
                       [] \<Rightarrow> throw IndexError
                     | c # rest \<Rightarrow>
                         bnd (put_queue q (Q\<lparr>add_status := st, content := rest\<rparr>))
                           (\<lambda>_. ret c)))) h))"
proof (cases "q < length (queues h)")
  case False
  then show ?thesis using J by (simp add: bnd_def get_queue_eq)
next
  case q: True
  let ?Q = "queues h ! q"
  have qok: "qok ?Q" using J q by (rule rbq_inv_qok)
  show ?thesis
  proof (cases "qclass ?Q")
    case BattleQueue
    have "\<And>Q. qclass Q = BattleQueue \<Longrightarrow> qok Q" by (simp add: qok_def)
    then show ?thesis
      using q J BattleQueue
      by (auto simp: bnd_def get_queue_eq put_queue_def throw_def ret_def
            split: list.splits intro!: rbq_inv_put)
  next
    case RestrictedBattleQueue
    then have ok: "rq_ok ?Q" using qok by (simp add: qok_def)
    show ?thesis
    proof (cases "add_status ?Q")
      case Nil
      then show ?thesis using q J RestrictedBattleQueue
        by (simp add: bnd_def get_queue_eq throw_def)
    next
      case (Cons b st)
      then obtain c rest where c: "content ?Q = c # rest"
        using ok by (cases "content ?Q") (auto simp: rq_ok_def)
      have "rbq_inv (h\<lparr>queues := (queues h)[q := ?Q\<lparr>add_status := st, content := rest\<rparr>]\<rparr>)"
        using J qok c Cons by (intro rbq_inv_put qok_pop) simp_all
      then show ?thesis using q RestrictedBattleQueue Cons c
        by (simp add: bnd_def get_queue_eq put_queue_def ret_def)
    qed
  qed
qed

lemma remove_eq:
  "remove ops q h =
     (case clean_queue ops q h of
        (Return _, h1) \<Rightarrow>
          bnd (get_queue q) (\<lambda>Q.
           case qclass Q of
             BattleQueue \<Rightarrow> bnd (get_queue q) (\<lambda>Q.
               case content Q of
                 [] \<Rightarrow> throw IndexError
               | c # rest \<Rightarrow> bnd (put_queue q (Q\<lparr>content := rest\<rparr>)) (\<lambda>_. ret c))
           | RestrictedBattleQueue \<Rightarrow> bnd (get_queue q) (\<lambda>Q.
               case add_status Q of
                 [] \<Rightarrow> throw IndexError
               | _ # st \<Rightarrow>
                   bnd (put_queue q (Q\<lparr>add_status := st\<rparr>)) (\<lambda>_.
                     case content Q of
                       [] \<Rightarrow> throw IndexError
                     | c # rest \<Rightarrow>
                         bnd (put_queue q (Q\<lparr>add_status := st, content := rest\<rparr>))
                           (\<lambda>_. ret c)))) h1
      | (Raise e, h1) \<Rightarrow> (Raise e, h1)
      | (OutOfFuel, h1) \<Rightarrow> (OutOfFuel, h1))"
proof (cases "q < length (queues h) \<and> clean_list ops (chars h) (content (queues h ! q)) \<noteq> None")
  case False
  then show ?thesis
    by (auto simp: remove_def BattleQueue_remove_def RestrictedBattleQueue_remove_def
          bnd_def get_queue_eq clean_queue_eq split: qclass.splits)
next
  case True
  then obtain xs where xs: "clean_list ops (chars h) (content (queues h ! q)) = Some xs" by auto
  have cl: "qclass (queues (clean_heap ops q h) ! q) = qclass (queues h ! q)"
    using True xs by (simp add: clean_heap_def)
  show ?thesis
    using True cl
    by (simp add: remove_def BattleQueue_remove_def RestrictedBattleQueue_remove_def
          bnd_def [of "get_queue q"] bnd_def [of "clean_queue ops q"] get_queue_eq clean_queue_eq
          split: qclass.splits)
qed

lemma remove_keeps: "keeps rbq_inv (remove ops q)"
  unfolding keeps_def
proof (intro allI impI)
  fix h :: "'a heap"
  assume J: "rbq_inv h"
  have J1: "rbq_inv (clean_heap ops q h)" using J by (rule clean_heap_inv)
  show "rbq_inv (snd (remove ops q h))"
    using remove_tail_inv [OF J1, of q] J
    by (simp add: remove_eq clean_queue_eq)
qed

lemma Character_copy_keeps: "keeps rbq_inv (Character_copy x qn)"
  by (cases x)
     (auto simp: keeps_def Character_copy_def throw_def bnd_def char_stats_def get_char_def ret_def)

lemma set_enemy_keeps: "keeps rbq_inv (set_enemy c e)"
  by (auto simp: keeps_def set_enemy_def bnd_def get_char_def put_char_def)

lemma init_keeps: "keeps rbq_inv BattleQueue_init" "keeps rbq_inv RestrictedBattleQueue_init"
  by (auto simp: keeps_def BattleQueue_init_def RestrictedBattleQueue_init_def rbq_inv_def
        rq_ok_def eligible_def)

lemma copy_body_keeps: "keeps rbq_inv (copy_body ops q qn)"
  unfolding copy_body_def
  by (intro keeps_bnd keeps_get_queue Character_copy_keeps set_enemy_keeps add_keeps
        is_empty_keeps keeps_if remove_keeps keeps_ret keeps_for_each)

lemma copy_keeps: "keeps rbq_inv (copy ops q)"
  unfolding copy_def BattleQueue_copy_def RestrictedBattleQueue_copy_def
  by (intro keeps_bnd keeps_get_queue) (auto split: qclass.splits intro!: keeps_bnd init_keeps copy_body_keeps)

lemma reachable_inv: "reachable ops h \<Longrightarrow> rbq_inv h"
proof (induction rule: reachable.induct)
  case empty_store
  show ?case by (simp add: rbq_inv_def)
next
  case (characters h h')
  then show ?case by (simp add: rbq_inv_def)
next
  case (new_queue h)
  then show ?case using init_keeps(2) unfolding keeps_def by blast
next
  case (new_base_queue h)
  then show ?case using init_keeps(1) unfolding keeps_def by blast
next
  case (add h q c)
  then show ?case using add_keeps [of q c] unfolding keeps_def by blast
next
  case (remove h q)
  then show ?case using remove_keeps [of ops q] unfolding keeps_def by blast
next
  case (peek h q)
  then show ?case using peek_keeps [of ops q] unfolding keeps_def by blast
next
  case (is_empty h q)
  then show ?case using is_empty_keeps [of ops q] unfolding keeps_def by blast
next
  case (copy h q)
  then show ?case using copy_keeps [of ops q] unfolding keeps_def by blast
qed

section \<open>Calls that touch new objects only\<close>

lemma fresh_inv_refl: "fresh_inv h0 h0"
  by (auto simp: fresh_inv_def unchanged_def newc_def newq_def newn_def)

lemma okI:
  "(\<And>h r h'. fresh_inv h0 h \<Longrightarrow> m h = (r, h') \<Longrightarrow>
      fresh_inv h0 h' \<and> (\<forall>x. r = Return x \<longrightarrow> R x)) \<Longrightarrow> ok h0 m R"
  by (simp add: ok_def)

lemma okD: "ok h0 m R \<Longrightarrow> fresh_inv h0 h \<Longrightarrow> m h = (r, h') \<Longrightarrow> fresh_inv h0 h'"
  by (simp add: ok_def)

lemma okD_ret: "ok h0 m R \<Longrightarrow> fresh_inv h0 h \<Longrightarrow> m h = (Return x, h') \<Longrightarrow> R x"
  by (simp add: ok_def)

lemma ok_ret: "R x \<Longrightarrow> ok h0 (ret x) R"
  by (simp add: ok_def ret_def)

lemma ok_throw: "ok h0 (throw e) R"
  by (simp add: ok_def throw_def)

lemma ok_out_of_fuel: "ok h0 (\<lambda>h. (OutOfFuel, h)) R"
  by (simp add: ok_def)

lemma ok_bnd:
  assumes "ok h0 m R" and "\<And>x. R x \<Longrightarrow> ok h0 (f x) S"
  shows "ok h0 (bnd m f) S"
proof (rule okI)
  fix h r h'
  assume I: "fresh_inv h0 h" and run: "bnd m f h = (r, h')"
  obtain r1 h1 where m: "m h = (r1, h1)" by (cases "m h")
  have I1: "fresh_inv h0 h1" using assms(1) I m by (rule okD)
  show "fresh_inv h0 h' \<and> (\<forall>x. r = Return x \<longrightarrow> S x)"
  proof (cases r1)
    case (Return x)
    have Rx: "R x" using assms(1) I m [unfolded Return] by (rule okD_ret)
    have "f x h1 = (r, h')" using run m Return by (simp add: bnd_def)
    with assms(2) [OF Rx] I1 show ?thesis by (simp add: ok_def)
  next
    case (Raise e)
    then show ?thesis using run m I1 by (auto simp: bnd_def)
  next
    case OutOfFuel
    then show ?thesis using run m I1 by (auto simp: bnd_def)
  qed
qed

lemma ok_weaken: "ok h0 m R \<Longrightarrow> (\<And>x. R x \<Longrightarrow> S x) \<Longrightarrow> ok h0 m S"
  by (simp add: ok_def)

lemma ok_if: "(b \<Longrightarrow> ok h0 m R) \<Longrightarrow> (\<not> b \<Longrightarrow> ok h0 m' R) \<Longrightarrow> ok h0 (if b then m else m') R"
  by simp

lemma ok_case_option:
  "(x = None \<Longrightarrow> ok h0 m R) \<Longrightarrow> (\<And>y. x = Some y \<Longrightarrow> ok h0 (f y) R) \<Longrightarrow>
   ok h0 (case x of None \<Rightarrow> m | Some y \<Rightarrow> f y) R"
  by (cases x) simp_all

lemma ok_case_list:
  "(xs = [] \<Longrightarrow> ok h0 m R) \<Longrightarrow> (\<And>y ys. xs = y # ys \<Longrightarrow> ok h0 (f y ys) R) \<Longrightarrow>
   ok h0 (case xs of [] \<Rightarrow> m | y # ys \<Rightarrow> f y ys) R"
  by (cases xs) simp_all

lemma ok_case_qclass:
  "(k = BattleQueue \<Longrightarrow> ok h0 m R) \<Longrightarrow> (k = RestrictedBattleQueue \<Longrightarrow> ok h0 m' R) \<Longrightarrow>
   ok h0 (case k of BattleQueue \<Rightarrow> m | RestrictedBattleQueue \<Rightarrow> m') R"
  by (cases k) simp_all

lemma ok_case_sum:
  "(\<And>a. x = Inl a \<Longrightarrow> ok h0 (f a) R) \<Longrightarrow> (\<And>b. x = Inr b \<Longrightarrow> ok h0 (g b) R) \<Longrightarrow>
   ok h0 (case x of Inl a \<Rightarrow> f a | Inr b \<Rightarrow> g b) R"
  by (cases x) simp_all

lemma ok_read: "(\<And>h. snd (m h) = h) \<Longrightarrow> ok h0 m (\<lambda>_. True)"
  by (rule okI) (metis snd_conv)

lemma ok_for_each:
  "(\<And>x. x \<in> set xs \<Longrightarrow> ok h0 (f x) R) \<Longrightarrow> ok h0 (for_each f xs) (\<lambda>ys. \<forall>y \<in> set ys. R y)"
proof (induction xs)
  case Nil
  show ?case by (simp add: ok_ret)
next
  case (Cons x xs)
  show ?case
    apply simp
    apply (rule ok_bnd [where R = R])
     apply (rule Cons.prems, simp)
    apply (rule ok_bnd [where R = "\<lambda>ys. \<forall>y \<in> set ys. R y"])
     apply (rule Cons.IH, rule Cons.prems, simp)
    apply (rule ok_ret, simp)
    done
qed

lemma ok_for_loop:
  "(\<And>x st. P st \<Longrightarrow> ok h0 (f x st) P) \<Longrightarrow> P st \<Longrightarrow> ok h0 (for_loop f xs st) P"
proof (induction xs arbitrary: st)
  case Nil
  then show ?case by (simp add: ok_ret)
next
  case (Cons x xs)
  show ?case
    apply simp
    apply (rule ok_bnd [where R = P])
     apply (rule Cons.prems(1), rule Cons.prems(2))
    apply (rule Cons.IH, rule Cons.prems(1), assumption+)
    done
qed

lemma bnd_assoc: "bnd (bnd m f) g = bnd m (\<lambda>x. bnd (f x) g)"
  by (rule ext) (simp add: bnd_def split: prod.splits outcome.splits)

lemma bnd_if: "bnd (if b then m else m') f = (if b then bnd m f else bnd m' f)"
  by simp

lemmas bnd_norm = bnd_assoc bnd_if bnd_ret bnd_throw Let_def

lemma unchanged_length:
  assumes "unchanged h0 h"
  shows "length (chars h0) \<le> length (chars h)" "length (queues h0) \<le> length (queues h)"
        "length (nodes h0) \<le> length (nodes h)"
proof -
  have "length (take (length (chars h0)) (chars h)) = length (chars h0)"
       "length (take (length (queues h0)) (queues h)) = length (queues h0)"
       "length (take (length (nodes h0)) (nodes h)) = length (nodes h0)"
    using assms by (simp_all add: unchanged_def)
  then show "length (chars h0) \<le> length (chars h)" "length (queues h0) \<le> length (queues h)"
        "length (nodes h0) \<le> length (nodes h)"
    by simp_all
qed

lemma nth_update_cases: "(xs[i := v]) ! j = (if i = j \<and> i < length xs then v else xs ! j)"
  by (cases "i < length xs") (simp_all add: nth_list_update list_update_beyond)

lemma ok_get_char: "ok h0 (get_char c) (\<lambda>C. newc h0 c \<longrightarrow> closed_char h0 C)"
  by (rule okI) (auto simp: get_char_def fresh_inv_def split: if_splits)

lemma take_update_ge: "n \<le> i \<Longrightarrow> take n (xs[i := v]) = take n xs"
  by simp

lemma ok_put_char:
  assumes "newc h0 c" and "closed_char h0 C"
  shows "ok h0 (put_char c C) (\<lambda>_. True)"
proof (rule okI)
  fix h r h'
  assume I: "fresh_inv h0 h" and run: "put_char c C h = (r, h')"
  have h': "h' = h\<lparr>chars := (chars h)[c := C]\<rparr>" using run by (simp add: put_char_def)
  have "\<And>c'. c' < length (chars h) \<Longrightarrow> newc h0 c' \<Longrightarrow> closed_char h0 ((chars h)[c := C] ! c')"
    using I assms(2) by (auto simp: fresh_inv_def nth_update_cases)
  then show "fresh_inv h0 h' \<and> (\<forall>x. r = Return x \<longrightarrow> True)"
    using I assms(1) by (simp add: h' fresh_inv_def unchanged_def newc_def)
qed

lemma ok_get_queue: "ok h0 (get_queue q) (\<lambda>Q. newq h0 q \<longrightarrow> closed_queue h0 Q)"
  by (rule okI) (auto simp: get_queue_def fresh_inv_def split: if_splits)

lemma ok_put_queue:
  assumes "newq h0 q" and "closed_queue h0 Q"
  shows "ok h0 (put_queue q Q) (\<lambda>_. True)"
proof (rule okI)
  fix h r h'
  assume I: "fresh_inv h0 h" and run: "put_queue q Q h = (r, h')"
  have h': "h' = h\<lparr>queues := (queues h)[q := Q]\<rparr>" using run by (simp add: put_queue_def)
  have "\<And>q'. q' < length (queues h) \<Longrightarrow> newq h0 q' \<Longrightarrow> closed_queue h0 ((queues h)[q := Q] ! q')"
    using I assms(2) by (auto simp: fresh_inv_def nth_update_cases)
  then show "fresh_inv h0 h' \<and> (\<forall>x. r = Return x \<longrightarrow> True)"
    using I assms(1) by (simp add: h' fresh_inv_def unchanged_def newq_def)
qed

lemma ok_get_node: "ok h0 (get_node i) (\<lambda>N. newn h0 i \<longrightarrow> closed_node h0 N)"
  by (rule okI) (auto simp: get_node_def fresh_inv_def split: if_splits)

lemma ok_put_node:
  assumes "newn h0 i" and "closed_node h0 N"
  shows "ok h0 (put_node i N) (\<lambda>_. True)"
proof (rule okI)
  fix h r h'
  assume I: "fresh_inv h0 h" and run: "put_node i N h = (r, h')"
  have h': "h' = h\<lparr>nodes := (nodes h)[i := N]\<rparr>" using run by (simp add: put_node_def)
  have "\<And>i'. i' < length (nodes h) \<Longrightarrow> newn h0 i' \<Longrightarrow> closed_node h0 ((nodes h)[i := N] ! i')"
    using I assms(2) by (auto simp: fresh_inv_def nth_update_cases)
  then show "fresh_inv h0 h' \<and> (\<forall>x. r = Return x \<longrightarrow> True)"
    using I assms(1) by (simp add: h' fresh_inv_def unchanged_def newn_def)
qed

lemma fresh_inv_alloc_queue:
  assumes I: "fresh_inv h0 h" and Q: "closed_queue h0 Q"
  shows "fresh_inv h0 (h\<lparr>queues := queues h @ [Q]\<rparr>)" and "newq h0 (length (queues h))"
proof -
  have len: "length (queues h0) \<le> length (queues h)"
    using I by (simp add: fresh_inv_def unchanged_length)
  show "newq h0 (length (queues h))" using len by (simp add: newq_def)
  show "fresh_inv h0 (h\<lparr>queues := queues h @ [Q]\<rparr>)"
    using I Q len by (auto simp: fresh_inv_def unchanged_def nth_append less_Suc_eq)
qed

lemma fresh_inv_alloc_char:
  assumes I: "fresh_inv h0 h" and C: "closed_char h0 C"
  shows "fresh_inv h0 (h\<lparr>chars := chars h @ [C]\<rparr>)" and "newc h0 (length (chars h))"
proof -
  have len: "length (chars h0) \<le> length (chars h)"
    using I by (simp add: fresh_inv_def unchanged_length)
  show "newc h0 (length (chars h))" using len by (simp add: newc_def)
  show "fresh_inv h0 (h\<lparr>chars := chars h @ [C]\<rparr>)"
    using I C len by (auto simp: fresh_inv_def unchanged_def nth_append less_Suc_eq)
qed

lemma fresh_inv_alloc_node:
  assumes I: "fresh_inv h0 h" and N: "closed_node h0 N"
  shows "fresh_inv h0 (h\<lparr>nodes := nodes h @ [N]\<rparr>)" and "newn h0 (length (nodes h))"
proof -
  have len: "length (nodes h0) \<le> length (nodes h)"
    using I by (simp add: fresh_inv_def unchanged_length)
  show "newn h0 (length (nodes h))" using len by (simp add: newn_def)
  show "fresh_inv h0 (h\<lparr>nodes := nodes h @ [N]\<rparr>)"
    using I N len by (auto simp: fresh_inv_def unchanged_def nth_append less_Suc_eq)
qed

lemma closed_queue_empty:
  "closed_queue h0 \<lparr>qclass = k, content = [], p1 = None, p2 = None, add_status = []\<rparr>"
  by (simp add: closed_queue_def newco_def)

lemma ok_BattleQueue_init: "ok h0 BattleQueue_init (newq h0)"
proof (rule okI)
  fix h r h'
  assume I: "fresh_inv h0 h" and run: "BattleQueue_init h = (r, h')"
  show "fresh_inv h0 h' \<and> (\<forall>x. r = Return x \<longrightarrow> newq h0 x)"
    using run fresh_inv_alloc_queue [OF I closed_queue_empty [of h0 BattleQueue]]
    by (auto simp: BattleQueue_init_def)
qed

lemma ok_RestrictedBattleQueue_init: "ok h0 RestrictedBattleQueue_init (newq h0)"
proof (rule okI)
  fix h r h'
  assume I: "fresh_inv h0 h" and run: "RestrictedBattleQueue_init h = (r, h')"
  show "fresh_inv h0 h' \<and> (\<forall>x. r = Return x \<longrightarrow> newq h0 x)"
    using run fresh_inv_alloc_queue [OF I closed_queue_empty [of h0 RestrictedBattleQueue]]
    by (auto simp: RestrictedBattleQueue_init_def)
qed

lemmas ok_struct = ok_if ok_case_option ok_case_list ok_case_qclass ok_case_sum ok_throw ok_ret

lemmas ok_prim = ok_bnd [OF ok_get_char] ok_weaken [OF ok_get_char] ok_bnd [OF ok_put_char] ok_weaken [OF ok_put_char] ok_bnd [OF ok_get_queue] ok_weaken [OF ok_get_queue] ok_bnd [OF ok_put_queue] ok_weaken [OF ok_put_queue] ok_bnd [OF ok_get_node] ok_weaken [OF ok_get_node] ok_bnd [OF ok_put_node] ok_weaken [OF ok_put_node] ok_bnd [OF ok_BattleQueue_init] ok_weaken [OF ok_BattleQueue_init] ok_bnd [OF ok_RestrictedBattleQueue_init] ok_weaken [OF ok_RestrictedBattleQueue_init]

lemma ok_char_stats: "ok h0 (char_stats c) (\<lambda>_. True)"
  unfolding char_stats_def bnd_norm by (intro ok_struct ok_prim) simp

lemma ok_char_enemy: "newc h0 c \<Longrightarrow> ok h0 (char_enemy c) (newco h0)"
  unfolding char_enemy_def bnd_norm by (intro ok_struct ok_prim) (simp add: closed_char_def)

lemma ok_char_enemy_any: "ok h0 (char_enemy c) (\<lambda>_. True)"
  unfolding char_enemy_def bnd_norm by (intro ok_struct ok_prim) simp

lemma ok_battle_queue_of: "newc h0 c \<Longrightarrow> ok h0 (battle_queue_of c) (newq h0)"
  unfolding battle_queue_of_def bnd_norm by (intro ok_struct ok_prim) (simp add: closed_char_def)

lemma ok_update_stats: "newc h0 c \<Longrightarrow> ok h0 (update_stats c f) (\<lambda>_. True)"
  unfolding update_stats_def bnd_norm
  by (intro ok_struct ok_prim) (simp_all add: closed_char_def)

lemma ok_set_enemy: "newc h0 c \<Longrightarrow> newco h0 e \<Longrightarrow> ok h0 (set_enemy c e) (\<lambda>_. True)"
  unfolding set_enemy_def bnd_norm
  by (intro ok_struct ok_prim) (simp_all add: closed_char_def)

lemma ok_clean_content: "ok h0 (clean_content ops xs) (\<lambda>ys. set ys \<subseteq> set xs)"
proof (induction xs)
  case Nil
  show ?case by (simp add: ok_ret)
next
  case (Cons c xs)
  show ?case
    apply simp
    apply (rule ok_bnd [OF ok_char_stats])
    apply (rule ok_if)
     apply (rule ok_weaken [OF Cons.IH], blast)
    apply (rule ok_ret, simp)
    done
qed

lemma closed_queue_content:
  "closed_queue h0 Q \<Longrightarrow> set xs \<subseteq> set (content Q) \<Longrightarrow> closed_queue h0 (Q\<lparr>content := xs\<rparr>)"
  by (auto simp: closed_queue_def)

lemma closed_queue_status [simp]:
  "closed_queue h0 (Q\<lparr>add_status := st\<rparr>) = closed_queue h0 Q"
  by (simp add: closed_queue_def)

lemma closed_queue_append:
  "closed_queue h0 Q \<Longrightarrow> newc h0 c \<Longrightarrow> closed_queue h0 (Q\<lparr>content := content Q @ [c]\<rparr>)"
  by (auto simp: closed_queue_def)

lemma closed_queue_players:
  "closed_queue h0 Q \<Longrightarrow> newco h0 a \<Longrightarrow> newco h0 b \<Longrightarrow> closed_queue h0 (Q\<lparr>p1 := a, p2 := b\<rparr>)"
  by (auto simp: closed_queue_def)

lemma closed_queue_front:
  "closed_queue h0 Q \<Longrightarrow> content Q = c # rest \<Longrightarrow> newc h0 c \<and> closed_queue h0 (Q\<lparr>content := rest\<rparr>)"
  by (auto simp: closed_queue_def)

lemma ok_clean_queue: "newq h0 q \<Longrightarrow> ok h0 (clean_queue ops q) (\<lambda>_. True)"
  unfolding clean_queue_def bnd_norm
  by (intro ok_struct ok_prim ok_bnd [OF ok_clean_content] ok_weaken [OF ok_clean_content])
     (auto intro: closed_queue_content)

lemma ok_BattleQueue_add: "newq h0 q \<Longrightarrow> newc h0 c \<Longrightarrow> ok h0 (BattleQueue_add q c) (\<lambda>_. True)"
  unfolding BattleQueue_add_def bnd_norm
  by (intro ok_struct ok_prim ok_bnd [OF ok_char_enemy] ok_weaken [OF ok_char_enemy])
     (auto intro: closed_queue_append closed_queue_players simp: newco_def)

lemma ok_get_add_ability_count: "ok h0 (get_add_ability_count q c) (\<lambda>_. True)"
  unfolding get_add_ability_count_def bnd_norm
  by (intro ok_struct ok_prim) simp

lemma ok_append_ticket: "newq h0 q \<Longrightarrow> newc h0 c \<Longrightarrow> ok h0 (append_ticket q c b) (\<lambda>_. True)"
  unfolding append_ticket_def bnd_norm
  by (intro ok_struct ok_prim)
     (auto intro: closed_queue_append)

lemma ok_RestrictedBattleQueue_add:
  "newq h0 q \<Longrightarrow> newc h0 c \<Longrightarrow> ok h0 (RestrictedBattleQueue_add q c) (\<lambda>_. True)"
  unfolding RestrictedBattleQueue_add_def bnd_norm
  by (intro ok_struct ok_prim ok_bnd [OF ok_char_enemy] ok_weaken [OF ok_char_enemy] ok_bnd [OF ok_append_ticket] ok_weaken [OF ok_append_ticket] ok_bnd [OF ok_get_add_ability_count] ok_weaken [OF ok_get_add_ability_count])
     (auto intro: closed_queue_players simp: newco_def)

lemma ok_add: "newq h0 q \<Longrightarrow> newc h0 c \<Longrightarrow> ok h0 (add q c) (\<lambda>_. True)"
  unfolding add_def bnd_norm
  by (intro ok_struct ok_prim ok_bnd [OF ok_BattleQueue_add] ok_weaken [OF ok_BattleQueue_add] ok_bnd [OF ok_RestrictedBattleQueue_add] ok_weaken [OF ok_RestrictedBattleQueue_add])

lemma ok_BattleQueue_remove: "newq h0 q \<Longrightarrow> ok h0 (BattleQueue_remove ops q) (newc h0)"
  unfolding BattleQueue_remove_def bnd_norm
  by (intro ok_struct ok_bnd [OF ok_clean_queue] ok_weaken [OF ok_clean_queue] ok_prim)
     (auto simp: closed_queue_def newco_def)

lemma ok_RestrictedBattleQueue_remove:
  "newq h0 q \<Longrightarrow> ok h0 (RestrictedBattleQueue_remove ops q) (newc h0)"
  unfolding RestrictedBattleQueue_remove_def bnd_norm
  by (intro ok_struct ok_bnd [OF ok_clean_queue] ok_weaken [OF ok_clean_queue] ok_prim)
     (auto simp: closed_queue_def newco_def)

lemma ok_remove: "newq h0 q \<Longrightarrow> ok h0 (remove ops q) (newc h0)"
  unfolding remove_def bnd_norm
  by (intro ok_struct ok_prim ok_bnd [OF ok_BattleQueue_remove] ok_weaken [OF ok_BattleQueue_remove] ok_bnd [OF ok_RestrictedBattleQueue_remove] ok_weaken [OF ok_RestrictedBattleQueue_remove])

lemma ok_is_empty: "newq h0 q \<Longrightarrow> ok h0 (is_empty ops q) (\<lambda>_. True)"
  unfolding is_empty_def bnd_norm
  by (intro ok_struct ok_bnd [OF ok_clean_queue] ok_weaken [OF ok_clean_queue] ok_prim) simp

lemma ok_peek: "newq h0 q \<Longrightarrow> ok h0 (peek ops q) (newco h0)"
  unfolding peek_def bnd_norm
  by (intro ok_struct ok_bnd [OF ok_clean_queue] ok_weaken [OF ok_clean_queue] ok_prim)
     (auto simp: closed_queue_def newco_def)

lemma ok_hp_of: "ok h0 (hp_of ops x) (\<lambda>_. True)"
  unfolding hp_of_def bnd_norm
  by (intro ok_struct ok_bnd [OF ok_char_stats] ok_weaken [OF ok_char_stats]) simp

lemma ok_is_over: "newq h0 q \<Longrightarrow> ok h0 (is_over ops q) (\<lambda>_. True)"
  unfolding is_over_def bnd_norm
  by (intro ok_struct ok_bnd [OF ok_is_empty] ok_weaken [OF ok_is_empty] ok_prim ok_bnd [OF ok_hp_of] ok_weaken [OF ok_hp_of]) simp_all

lemma ok_get_winner: "newq h0 q \<Longrightarrow> ok h0 (get_winner ops q) (newco h0)"
  unfolding get_winner_def bnd_norm
  by (intro ok_struct ok_bnd [OF ok_is_over] ok_weaken [OF ok_is_over] ok_prim ok_bnd [OF ok_hp_of] ok_weaken [OF ok_hp_of])
     (auto simp: closed_queue_def newco_def)

lemma ok_for_each_unit:
  "(\<And>x. x \<in> set xs \<Longrightarrow> ok h0 (f x) (\<lambda>_. True)) \<Longrightarrow> ok h0 (for_each f xs) (\<lambda>_. True)"
  by (rule ok_weaken [OF ok_for_each]) simp_all

lemma ok_alloc_char:
  assumes "closed_char h0 C"
  shows "ok h0 (\<lambda>h. (Return (length (chars h)), h\<lparr>chars := chars h @ [C]\<rparr>)) (newc h0)"
proof (rule okI)
  fix h r h'
  assume I: "fresh_inv h0 h"
    and run: "(Return (length (chars h)), h\<lparr>chars := chars h @ [C]\<rparr>) = (r, h')"
  show "fresh_inv h0 h' \<and> (\<forall>x. r = Return x \<longrightarrow> newc h0 x)"
    using run fresh_inv_alloc_char [OF I assms] by auto
qed

lemma ok_Character_copy: "newq h0 qn \<Longrightarrow> ok h0 (Character_copy x qn) (newc h0)"
  unfolding Character_copy_def bnd_norm
  by (intro ok_struct ok_bnd [OF ok_char_stats] ok_alloc_char)
     (simp add: closed_char_def newco_def)

lemma ok_copy_body: "newq h0 qn \<Longrightarrow> ok h0 (copy_body ops q qn) (newq h0)"
  unfolding copy_body_def bnd_norm
  by (intro ok_struct ok_prim ok_bnd [OF ok_Character_copy] ok_bnd [OF ok_set_enemy]
        ok_bnd [OF ok_add] ok_bnd [OF ok_is_empty] ok_bnd [OF ok_remove]
        ok_bnd [OF ok_for_each_unit] ok_add)
     (simp_all add: newco_def)

lemma ok_copy: "ok h0 (copy ops q) (newq h0)"
  unfolding copy_def BattleQueue_copy_def RestrictedBattleQueue_copy_def bnd_norm
  by (intro ok_struct ok_prim ok_copy_body)

lemma ok_deal_damage:
  "newc h0 caster \<Longrightarrow> newc h0 target \<Longrightarrow> ok h0 (deal_damage ops sk caster target) (\<lambda>_. True)"
  unfolding deal_damage_def bnd_norm
  by (intro ok_struct ok_bnd [OF ok_update_stats] ok_update_stats)

lemma ok_queue_add_of:
  "newc h0 caster \<Longrightarrow> newc h0 x \<Longrightarrow> ok h0 (queue_add_of caster x) (\<lambda>_. True)"
  unfolding queue_add_of_def bnd_norm
  by (intro ok_struct ok_bnd [OF ok_battle_queue_of] ok_add)

lemma ok_vampire_drain:
  "newc h0 caster \<Longrightarrow> newc h0 target \<Longrightarrow> ok h0 (vampire_drain ops sk caster target) (\<lambda>_. True)"
  unfolding vampire_drain_def bnd_norm
  by (intro ok_struct ok_bnd [OF ok_char_stats] ok_bnd [OF ok_deal_damage] ok_update_stats)

lemma ok_drain_queue:
  "newc h0 caster \<Longrightarrow> \<forall>c \<in> set temp_list. newc h0 c \<Longrightarrow>
   ok h0 (drain_queue ops caster n temp_list) (\<lambda>ys. \<forall>c \<in> set ys. newc h0 c)"
proof (induction n arbitrary: temp_list)
  case 0
  show ?case by (simp add: ok_out_of_fuel)
next
  case (Suc n)
  show ?case
    unfolding drain_queue.simps bnd_norm
    by (intro ok_struct ok_bnd [OF ok_battle_queue_of] ok_bnd [OF ok_is_empty]
          ok_bnd [OF ok_remove] Suc.IH)
       (use Suc.prems in auto)
qed

lemma ok_SorcererSpecial_use:
  "newc h0 caster \<Longrightarrow> newc h0 target \<Longrightarrow> ok h0 (SorcererSpecial_use ops caster target) (\<lambda>_. True)"
  unfolding SorcererSpecial_use_def bnd_norm
  by (intro ok_struct ok_prim ok_bnd [OF ok_battle_queue_of] ok_bnd [OF ok_drain_queue]
        ok_bnd [OF ok_for_each_unit] ok_bnd [OF ok_queue_add_of] ok_queue_add_of ok_deal_damage)
     simp_all

lemma ok_use_basic:
  "newc h0 caster \<Longrightarrow> newc h0 target \<Longrightarrow> ok h0 (use_basic ops sk caster target) (\<lambda>_. True)"
  by (cases sk)
     (simp_all add: bnd_norm,
      (intro ok_struct ok_bnd [OF ok_deal_damage] ok_bnd [OF ok_vampire_drain]
         ok_bnd [OF ok_queue_add_of] ok_queue_add_of ok_SorcererSpecial_use; assumption)+)

lemma ok_use:
  assumes "newc h0 caster" and "newc h0 target"
  shows "ok h0 (use ops sk caster target) (\<lambda>_. True)"
proof (cases sk)
  case (Basic b)
  then show ?thesis using ok_use_basic [OF assms] by simp
next
  case (SorcererAttack t)
  from assms show ?thesis
    unfolding SorcererAttack use.simps bnd_norm
    by (intro ok_struct ok_bnd [OF ok_char_stats] ok_bnd [OF ok_use_basic] ok_update_stats)
       simp_all
qed

lemma ok_attack: "newco h0 x \<Longrightarrow> ok h0 (attack ops x) (\<lambda>_. True)"
  unfolding attack_def bnd_norm
  by (intro ok_struct ok_bnd [OF ok_char_stats] ok_bnd [OF ok_char_enemy] ok_use)
     (auto simp: newco_def)

lemma ok_special_attack: "newco h0 x \<Longrightarrow> ok h0 (special_attack ops x) (\<lambda>_. True)"
  unfolding special_attack_def bnd_norm
  by (intro ok_struct ok_bnd [OF ok_char_stats] ok_bnd [OF ok_char_enemy] ok_use)
     (auto simp: newco_def)

lemma ok_available_actions: "ok h0 (available_actions ops x) (\<lambda>_. True)"
  unfolding available_actions_def bnd_norm
  by (intro ok_struct ok_bnd [OF ok_char_stats]) simp

lemma ok_enemy_of: "newco h0 x \<Longrightarrow> ok h0 (enemy_of x) (newco h0)"
  unfolding enemy_of_def
  by (intro ok_struct ok_char_enemy) (simp add: newco_def)

lemma ok_py_max: "ok h0 (py_max scores) (\<lambda>_. True)"
  unfolding py_max_def by (intro ok_struct) simp

lemma ok_perform:
  "newco h0 current_player \<Longrightarrow> newq h0 temp_bq \<Longrightarrow>
   ok h0 (perform ops action current_player temp_bq) (\<lambda>_. True)"
  unfolding perform_def bnd_norm
  by (intro ok_struct ok_bnd [OF ok_attack] ok_bnd [OF ok_special_attack]
        ok_bnd [OF ok_available_actions] ok_bnd [OF ok_remove])
     simp_all

lemma ok_get_state_score_player:
  "newq h0 q \<Longrightarrow> ok h0 (get_state_score_player ops fuel pl q) (\<lambda>_. True)"
proof (induction fuel arbitrary: pl q)
  case 0
  show ?case by (simp add: ok_out_of_fuel)
next
  case (Suc fuel)
  show ?case
    unfolding get_state_score_player.simps bnd_norm
    by (intro ok_struct ok_bnd [OF ok_is_over] ok_bnd [OF ok_get_winner] ok_hp_of
          ok_bnd [OF ok_hp_of] ok_bnd [OF ok_peek] ok_bnd [OF ok_available_actions]
          ok_bnd [OF ok_for_each_unit] ok_bnd [OF ok_copy] ok_bnd [OF ok_enemy_of]
          ok_bnd [OF ok_perform] Suc.IH ok_py_max)
       (use Suc.prems in simp_all)
qed

lemma ok_get_state_score: "ok h0 (get_state_score ops fuel q) (\<lambda>_. True)"
  unfolding get_state_score_def bnd_norm
  by (intro ok_struct ok_bnd [OF ok_copy] ok_bnd [OF ok_peek] ok_get_state_score_player)

lemma ok_run:
  assumes "ok h0 m R" and "m h0 = (r, h')"
  shows "unchanged h0 h'"
proof -
  have "fresh_inv h0 h'" using assms(1) fresh_inv_refl assms(2) by (rule okD)
  then show ?thesis by (simp add: fresh_inv_def)
qed

lemma closed_player: "closed_queue h0 Q \<Longrightarrow> newco h0 (player Q w)"
  by (cases w) (simp_all add: player_def closed_queue_def)

lemma ok_mutate:
  assumes q: "newq h0 q"
  shows "ok h0 (mutate ops q mu) (\<lambda>_. True)"
proof (cases mu)
  case (Add w)
  show ?thesis
    unfolding Add mutate_def mutation.case
    apply (intro ok_struct ok_prim ok_add q)
     apply (use q in simp_all)
    apply (drule closed_player [where w = w])
    apply (simp add: newco_def)
    done
next
  case Remove
  show ?thesis
    unfolding Remove mutate_def mutation.case
    by (intro ok_struct ok_bnd [OF ok_remove] q) simp
next
  case Peek
  show ?thesis
    unfolding Peek mutate_def mutation.case
    by (intro ok_struct ok_bnd [OF ok_peek] q) simp
next
  case IsEmpty
  show ?thesis
    unfolding IsEmpty mutate_def mutation.case
    by (intro ok_struct ok_bnd [OF ok_is_empty] q) simp
next
  case (Attack w)
  show ?thesis
    unfolding Attack mutate_def mutation.case
    by (intro ok_struct ok_prim ok_attack) (use q in \<open>auto intro: closed_player\<close>)
next
  case (SpecialAttack w)
  show ?thesis
    unfolding SpecialAttack mutate_def mutation.case
    by (intro ok_struct ok_prim ok_special_attack) (use q in \<open>auto intro: closed_player\<close>)
qed

lemma run_mutations_inv:
  "newq h0 q \<Longrightarrow> fresh_inv h0 h \<Longrightarrow> fresh_inv h0 (run_mutations ops q mus h)"
proof (induction mus arbitrary: h)
  case Nil
  then show ?case by simp
next
  case (Cons mu mus)
  obtain r h' where run: "mutate ops q mu h = (r, h')" by (cases "mutate ops q mu h")
  have "fresh_inv h0 h'"
    using ok_mutate [OF Cons.prems(1)] Cons.prems(2) run by (rule okD)
  then have "fresh_inv h0 (snd (mutate ops q mu h))" by (simp add: run)
  then show ?case using Cons.IH [OF Cons.prems(1)] by simp
qed

lemma ok_alloc_node:
  assumes "closed_node h0 N"
  shows "ok h0 (\<lambda>h. (Return (length (nodes h)), h\<lparr>nodes := nodes h @ [N]\<rparr>)) (newn h0)"
proof (rule okI)
  fix h r h'
  assume I: "fresh_inv h0 h"
    and run: "(Return (length (nodes h)), h\<lparr>nodes := nodes h @ [N]\<rparr>) = (r, h')"
  show "fresh_inv h0 h' \<and> (\<forall>x. r = Return x \<longrightarrow> newn h0 x)"
    using run fresh_inv_alloc_node [OF I assms] by auto
qed

lemma GameStateNode_init_None:
  "GameStateNode_init bq pl action None =
     (\<lambda>h. (Return (length (nodes h)),
       h\<lparr>nodes := nodes h @ [\<lparr>node_battle_queue = bq, node_current_player = pl,
          node_action_taken = action, node_highest_score = None, node_children = None\<rparr>]\<rparr>))"
  by (rule ext) (simp add: GameStateNode_init_def)

lemma ok_GameStateNode_init:
  "newq h0 bq \<Longrightarrow> newco h0 pl \<Longrightarrow> ok h0 (GameStateNode_init bq pl action None) (newn h0)"
  unfolding GameStateNode_init_None
  by (rule ok_alloc_node) (simp add: closed_node_def)

lemma ok_for_each_new:
  "(\<And>x. x \<in> set xs \<Longrightarrow> ok h0 (f x) (newn h0)) \<Longrightarrow>
   ok h0 (for_each f xs) (\<lambda>ys. \<forall>y \<in> set ys. newn h0 y)"
  by (rule ok_for_each)

lemma ok_get_children_nodes:
  "newn h0 parent_node \<Longrightarrow>
   ok h0 (get_children_nodes ops parent_node) (\<lambda>ys. \<forall>y \<in> set ys. newn h0 y)"
  unfolding get_children_nodes_def bnd_norm
  by (intro ok_struct ok_prim ok_bnd [OF ok_copy] ok_bnd [OF ok_peek]
        ok_bnd [OF ok_available_actions] ok_for_each_new ok_bnd [OF ok_enemy_of]
        ok_bnd [OF ok_perform] ok_GameStateNode_init)
     (simp_all add: closed_node_def)

lemma ok_py_max_scores: "ok h0 (py_max_scores scores) (\<lambda>_. True)"
  unfolding py_max_scores_def by (intro ok_struct) simp_all

lemma ok_score_terminal: "newn h0 n \<Longrightarrow> ok h0 (score_terminal ops n) (\<lambda>_. True)"
  unfolding score_terminal_def bnd_norm
  by (intro ok_struct ok_prim ok_bnd [OF ok_get_winner] ok_bnd [OF ok_hp_of])
     (simp_all add: closed_node_def)

lemma ok_minimax_loop:
  "\<forall>i \<in> set stack. newn h0 i \<Longrightarrow> ok h0 (minimax_loop ops fuel stack) (\<lambda>_. True)"
proof (induction fuel arbitrary: stack)
  case 0
  show ?case by (simp add: ok_out_of_fuel)
next
  case (Suc fuel)
  show ?case
  proof (cases "stack = []")
    case True
    then show ?thesis by (simp add: ok_ret)
  next
    case False
    then have last: "newn h0 (last stack)" using Suc.prems by simp
    have rest: "\<forall>i \<in> set (butlast stack). newn h0 i"
      using Suc.prems by (auto dest: in_set_butlastD)
    show ?thesis
      using False
      unfolding minimax_loop.simps bnd_norm
      apply simp
      by (intro ok_struct ok_prim ok_bnd [OF ok_is_over] ok_bnd [OF ok_get_children_nodes]
            ok_bnd [OF ok_for_each_unit] ok_bnd [OF ok_py_max_scores]
            ok_bnd [OF ok_score_terminal] Suc.IH conjI impI)
         (use last rest in \<open>auto simp: closed_node_def\<close>)
  qed
qed

lemma ok_first_matching_child: "ok h0 (first_matching_child s d chs) (\<lambda>_. True)"
proof (induction chs)
  case Nil
  show ?case by (simp add: ok_ret)
next
  case (Cons c chs)
  show ?case
    unfolding first_matching_child.simps
    by (intro ok_struct ok_prim Cons.IH) simp
qed

lemma ok_case_prod:
  "(\<And>a b. x = (a, b) \<Longrightarrow> ok h0 (f a b) R) \<Longrightarrow> ok h0 (case x of (a, b) \<Rightarrow> f a b) R"
  by (cases x) simp

lemma ok_for_loop_any:
  "(\<And>x st. ok h0 (f x st) (\<lambda>_. True)) \<Longrightarrow> ok h0 (for_loop f xs st) (\<lambda>_. True)"
  by (rule ok_for_loop) simp_all

lemma bnd_run:
  assumes run: "bnd m f h = (r, h')" and m: "m h = (r1, h1)" and f: "\<And>x. ok h1 (f x) R"
  shows "unchanged h1 h'"
proof (cases r1)
  case (Return x)
  then have "f x h1 = (r, h')" using run m by (simp add: bnd_def)
  with f [of x] show ?thesis by (rule ok_run)
next
  case (Raise e)
  then have "h' = h1" using run m by (simp add: bnd_def)
  then show ?thesis using fresh_inv_refl [of h1] by (simp add: fresh_inv_def)
next
  case OutOfFuel
  then have "h' = h1" using run m by (simp add: bnd_def)
  then show ?thesis using fresh_inv_refl [of h1] by (simp add: fresh_inv_def)
qed

lemma peek_store: "snd (peek ops q h) = snd (clean_queue ops q h)"
  by (simp add: peek_eq split: prod.splits outcome.splits)

lemma recursive_select_frame:
  assumes "MinimaxRecursive_select_attack ops fuel q h = (r, h')"
  shows "unchanged (snd (clean_queue ops q h)) h'"
proof -
  obtain r1 h1 where p: "peek ops q h = (r1, h1)" by (cases "peek ops q h")
  have h1: "h1 = snd (clean_queue ops q h)" using peek_store [of ops q h] p by simp
  show ?thesis
    unfolding h1 [symmetric]
    apply (rule bnd_run [OF assms [unfolded MinimaxRecursive_select_attack_def] p,
             where R = "\<lambda>_. True"])
    unfolding bnd_norm
    by (intro ok_struct ok_case_prod ok_bnd [OF ok_available_actions]
          ok_bnd [OF ok_for_loop_any] ok_bnd [OF ok_copy] ok_bnd [OF ok_get_state_score]
          ok_bnd [OF ok_peek] ok_bnd [OF ok_perform] ok_bnd [OF ok_get_state_score_player])
       simp_all
qed

lemma iterative_select_frame:
  assumes "MinimaxIterative_select_attack ops fuel q h = (r, h')"
  shows "unchanged (snd (clean_queue ops q h)) h'"
proof -
  obtain r1 h1 where p: "peek ops q h = (r1, h1)" by (cases "peek ops q h")
  have h1: "h1 = snd (clean_queue ops q h)" using peek_store [of ops q h] p by simp
  show ?thesis
    unfolding h1 [symmetric]
    apply (rule bnd_run [OF assms [unfolded MinimaxIterative_select_attack_def] p,
             where R = "\<lambda>_. True"])
    unfolding bnd_norm
    by (intro ok_struct ok_prim ok_bnd [OF ok_available_actions] ok_bnd [OF ok_copy]
          ok_bnd [OF ok_peek] ok_bnd [OF ok_GameStateNode_init] ok_bnd [OF ok_minimax_loop]
          ok_first_matching_child)
       simp_all
qed

lemma get_state_score_frame:
  assumes "get_state_score ops fuel q h = (r, h')"
  shows "unchanged h h'"
  using ok_get_state_score assms by (rule ok_run)

lemma clean_list_dropped:
  "clean_list ops cs xs = Some ys \<Longrightarrow>
   \<exists>zs. xs = zs @ ys \<and> (\<forall>c \<in> set zs. get_available_actions ops (stats (cs ! c)) = [])"
proof (induction xs)
  case Nil
  then show ?case by simp
next
  case (Cons c xs)
  show ?case
  proof (cases "get_available_actions ops (stats (cs ! c)) = []")
    case True
    with Cons.prems have "clean_list ops cs xs = Some ys" by (simp split: if_splits)
    from Cons.IH [OF this] obtain zs where
      "xs = zs @ ys" "\<forall>c \<in> set zs. get_available_actions ops (stats (cs ! c)) = []" by blast
    then have "c # xs = (c # zs) @ ys \<and>
       (\<forall>c \<in> set (c # zs). get_available_actions ops (stats (cs ! c)) = [])"
      using True by simp
    then show ?thesis by blast
  next
    case False
    with Cons.prems have "ys = c # xs" by (simp split: if_splits)
    then show ?thesis by simp
  qed
qed

lemma clean_queue_effect:
  "chars (snd (clean_queue ops q h)) = chars h \<and>
   nodes (snd (clean_queue ops q h)) = nodes h \<and>
   length (queues (snd (clean_queue ops q h))) = length (queues h) \<and>
   (\<forall>q'. q' \<noteq> q \<longrightarrow> queues (snd (clean_queue ops q h)) ! q' = queues h ! q') \<and>
   p1 (queues (snd (clean_queue ops q h)) ! q) = p1 (queues h ! q) \<and>
   p2 (queues (snd (clean_queue ops q h)) ! q) = p2 (queues h ! q) \<and>
   (\<exists>purged. content (queues h ! q) = purged @ content (queues (snd (clean_queue ops q h)) ! q) \<and>
      (\<forall>c \<in> set purged. get_available_actions ops (stats (chars h ! c)) = []))"
proof (cases "q < length (queues h) \<and> clean_list ops (chars h) (content (queues h ! q)) \<noteq> None")
  case False
  then have "snd (clean_queue ops q h) = h" by (auto simp: clean_queue_eq)
  then show ?thesis by simp
next
  case True
  then obtain ys where ys: "clean_list ops (chars h) (content (queues h ! q)) = Some ys" by auto
  have s: "snd (clean_queue ops q h) = h\<lparr>queues := (queues h)[q := realign (queues h ! q) ys]\<rparr>"
    using True ys by (simp add: clean_queue_eq clean_heap_def)
  from clean_list_dropped [OF ys] show ?thesis
    using True by (simp add: s)
qed

section \<open>The iterative search on a game that is over\<close>

lemma keeps_players_refl [simp]: "keeps_players q h h"
  by (simp add: keeps_players_def)

lemma keeps_players_trans:
  "keeps_players q h h1 \<Longrightarrow> keeps_players q h1 h2 \<Longrightarrow> keeps_players q h h2"
  by (auto simp: keeps_players_def)

lemma append_ticket_players: "keeps_players q h (snd (append_ticket q c b h))"
  by (simp add: append_ticket_eq keeps_players_def)

lemma BattleQueue_add_players: "keeps_players q h (snd (BattleQueue_add q c h))"
  by (auto simp: BattleQueue_add_def bnd_def get_queue_eq put_queue_def char_enemy_eq ret_def
        keeps_players_def)

lemma RestrictedBattleQueue_add_players:
  "keeps_players q h (snd (RestrictedBattleQueue_add q c h))"
proof (cases "q < length (queues h)")
  case False
  then show ?thesis by (simp add: RestrictedBattleQueue_add_def bnd_def get_queue_eq)
next
  case True
  have a: "\<And>b h. keeps_players q h (snd (append_ticket q c b h))"
    by (rule append_ticket_players)
  show ?thesis
    using True a
    apply (simp add: RestrictedBattleQueue_add_def bnd_def [of "get_queue q"] get_queue_eq Let_def)
    apply (auto simp: bnd_def get_queue_eq put_queue_def char_enemy_eq ret_def throw_def
        get_add_ability_count_eq keeps_players_def append_ticket_eq
        split: list.splits sum.splits)
    done
qed

lemma add_players: "keeps_players q h (snd (add q c h))"
  using BattleQueue_add_players [of q h c] RestrictedBattleQueue_add_players [of q h c]
  by (auto simp: add_def bnd_def get_queue_eq split: qclass.splits)

lemma copy_prefix:
  assumes qn: "qn < length (queues hA)"
      and new: "queues hA ! qn = \<lparr>qclass = k, content = [], p1 = None, p2 = None, add_status = []\<rparr>"
      and c: "c < length (chars hA)"
      and run: "bnd (add qn c) (\<lambda>_. bnd (is_empty ops qn)
                  (\<lambda>e. if \<not> e then bnd (remove ops qn) (\<lambda>_. ret ()) else ret ())) hA
                = (Return u, hP)"
  shows "chars hP = chars hA \<and> nodes hP = nodes hA \<and> length (queues hP) = length (queues hA) \<and>
         p1 (queues hP ! qn) = Some c \<and> p2 (queues hP ! qn) = enemy (chars hA ! c) \<and>
         content (queues hP ! qn) = [] \<and> qclass (queues hP ! qn) = k"
proof (cases k)
  case BattleQueue
  show ?thesis
  proof (cases "get_available_actions ops (stats (chars hA ! c)) = []")
    case True
    show ?thesis
      using run qn new c True BattleQueue
      by (auto simp: queue_defs split: if_splits)
  next
    case False
    show ?thesis
      using run qn new c False BattleQueue
      by (auto simp: queue_defs split: if_splits)
  qed
next
  case RestrictedBattleQueue
  show ?thesis
  proof (cases "get_available_actions ops (stats (chars hA ! c)) = []")
    case True
    show ?thesis
      using run qn new c True RestrictedBattleQueue
      by (auto simp: queue_defs split: if_splits)
  next
    case False
    show ?thesis
      using run qn new c False RestrictedBattleQueue
      by (auto simp: queue_defs split: if_splits)
  qed
qed

lemma bnd_ReturnE:
  assumes "bnd m f h = (Return y, h')"
  obtains x h1 where "m h = (Return x, h1)" and "f x h1 = (Return y, h')"
  using assms by (auto simp: bnd_def split: prod.splits outcome.splits)

lemma snd_bnd:
  "snd (bnd m f h) = (case m h of (Return x, h1) \<Rightarrow> snd (f x h1) | (_, h1) \<Rightarrow> h1)"
  by (simp add: bnd_def split: prod.splits outcome.splits)

lemma for_each_add_players:
  "keeps_players qn h
     (snd (for_each (\<lambda>character. if P character then add qn x else add qn y) xs h))"
proof (induction xs arbitrary: h)
  case Nil
  show ?case by (simp add: ret_def)
next
  case (Cons c xs)
  let ?f = "\<lambda>character. if P character then add qn x else add qn y"
  obtain r h1 where step: "?f c h = (r, h1)" by (cases "?f c h")
  have k1: "keeps_players qn h h1"
    using add_players [of qn h x] add_players [of qn h y] step by (auto split: if_splits)
  show ?case
  proof (cases r)
    case (Return u)
    obtain r2 h2 where rest: "for_each ?f xs h1 = (r2, h2)" by (cases "for_each ?f xs h1")
    have k2: "keeps_players qn h1 h2" using Cons.IH [of h1] rest by simp
    have "snd (for_each ?f (c # xs) h) = h2"
      using step Return rest by (cases r2) (simp_all add: bnd_def ret_def)
    then show ?thesis using keeps_players_trans [OF k1 k2] by simp
  next
    case (Raise e)
    then have "snd (for_each ?f (c # xs) h) = h1" using step by (simp add: bnd_def)
    then show ?thesis using k1 by simp
  next
    case OutOfFuel
    then have "snd (for_each ?f (c # xs) h) = h1" using step by (simp add: bnd_def)
    then show ?thesis using k1 by simp
  qed
qed

lemma Character_copy_Return:
  assumes "Character_copy x qn h = (Return c', h')"
  obtains c where "x = Some c" and "c < length (chars h)" and "c' = length (chars h)"
    and "h' = h\<lparr>chars := chars h @
            [\<lparr>stats = stats (chars h ! c), enemy = None, char_battle_queue = qn\<rparr>]\<rparr>"
  using assms
  by (cases x)
     (auto simp: Character_copy_def throw_def bnd_def char_stats_eq split: if_splits)

lemma set_enemy_Return:
  assumes "set_enemy c e h = (Return u, h')"
  shows "c < length (chars h) \<and> h' = h\<lparr>chars := (chars h)[c := (chars h ! c)\<lparr>enemy := e\<rparr>]\<rparr>"
  using assms by (auto simp: set_enemy_def bnd_def get_char_def put_char_def split: if_splits)

lemma copy_body_spec:
  assumes run: "copy_body ops q qn h = (Return q', h2)"
      and qn: "qn < length (queues h)"
      and new: "queues h ! qn =
                  \<lparr>qclass = k, content = [], p1 = None, p2 = None, add_status = []\<rparr>"
      and pa: "p1 (queues h ! q) = Some a" and pb: "p2 (queues h ! q) = Some b"
      and va: "a < length (chars h)" and vb: "b < length (chars h)"
  shows "q' = qn \<and>
         p1 (queues h2 ! qn) = Some (length (chars h)) \<and>
         p2 (queues h2 ! qn) = Some (Suc (length (chars h))) \<and>
         length (chars h2) = Suc (Suc (length (chars h))) \<and>
         stats (chars h2 ! length (chars h)) = stats (chars h ! a) \<and>
         stats (chars h2 ! Suc (length (chars h))) = stats (chars h ! b) \<and>
         length (queues h2) = length (queues h) \<and>
         (content (queues h ! q) = [] \<longrightarrow> content (queues h2 ! qn) = [])"
proof -
  let ?n = "length (chars h)"
  from run [unfolded copy_body_def] obtain Q hq where
    g: "get_queue q h = (Return Q, hq)" and
    r1: "bnd (Character_copy (p1 Q) qn) (\<lambda>p1_copy.
     bnd (Character_copy (p2 Q) qn) (\<lambda>p2_copy.
     bnd (set_enemy p1_copy (Some p2_copy)) (\<lambda>_.
     bnd (set_enemy p2_copy (Some p1_copy)) (\<lambda>_.
     bnd (add qn p1_copy) (\<lambda>_.
     bnd (is_empty ops qn) (\<lambda>e.
     bnd (if \<not> e then bnd (remove ops qn) (\<lambda>_. ret ()) else ret ()) (\<lambda>_.
     bnd (for_each
            (\<lambda>character.
               if Some character = p1 Q then add qn p1_copy
               else add qn p2_copy)
            (content Q)) (\<lambda>_.
     ret qn)))))))) hq = (Return q', h2)"
    by (rule bnd_ReturnE)
  have Q: "Q = queues h ! q" and hq: "hq = h" and qv: "q < length (queues h)"
    using g by (auto simp: get_queue_eq split: if_splits)
  from r1 obtain c1 h1 where
    cc1: "Character_copy (p1 Q) qn hq = (Return c1, h1)" and
    r2: "bnd (Character_copy (p2 Q) qn) (\<lambda>p2_copy.
     bnd (set_enemy c1 (Some p2_copy)) (\<lambda>_.
     bnd (set_enemy p2_copy (Some c1)) (\<lambda>_.
     bnd (add qn c1) (\<lambda>_.
     bnd (is_empty ops qn) (\<lambda>e.
     bnd (if \<not> e then bnd (remove ops qn) (\<lambda>_. ret ()) else ret ()) (\<lambda>_.
     bnd (for_each
            (\<lambda>character.
               if Some character = p1 Q then add qn c1
               else add qn p2_copy)
            (content Q)) (\<lambda>_.
     ret qn))))))) h1 = (Return q', h2)"
    by (rule bnd_ReturnE)
  from cc1 obtain a' where a': "p1 Q = Some a'" "a' < ?n" and c1: "c1 = ?n"
    and h1': "h1 = h\<lparr>chars := chars h @
            [\<lparr>stats = stats (chars h ! a'), enemy = None, char_battle_queue = qn\<rparr>]\<rparr>"
    unfolding hq by (rule Character_copy_Return)
  have "a' = a" using a'(1) pa Q by simp
  with h1' have h1: "h1 = h\<lparr>chars := chars h @
            [\<lparr>stats = stats (chars h ! a), enemy = None, char_battle_queue = qn\<rparr>]\<rparr>"
    by simp
  from r2 obtain c2 hb where
    cc2: "Character_copy (p2 Q) qn h1 = (Return c2, hb)" and
    r3: "bnd (set_enemy c1 (Some c2)) (\<lambda>_.
     bnd (set_enemy c2 (Some c1)) (\<lambda>_.
     bnd (add qn c1) (\<lambda>_.
     bnd (is_empty ops qn) (\<lambda>e.
     bnd (if \<not> e then bnd (remove ops qn) (\<lambda>_. ret ()) else ret ()) (\<lambda>_.
     bnd (for_each
            (\<lambda>character.
               if Some character = p1 Q then add qn c1
               else add qn c2)
            (content Q)) (\<lambda>_.
     ret qn)))))) hb = (Return q', h2)"
    by (rule bnd_ReturnE)
  from cc2 obtain b' where b': "p2 Q = Some b'" and c2: "c2 = length (chars h1)"
    and hb': "hb = h1\<lparr>chars := chars h1 @
            [\<lparr>stats = stats (chars h1 ! b'), enemy = None, char_battle_queue = qn\<rparr>]\<rparr>"
    by (rule Character_copy_Return)
  have "b' = b" using b' pb Q by simp
  with hb' have hb: "hb = h1\<lparr>chars := chars h1 @
            [\<lparr>stats = stats (chars h1 ! b), enemy = None, char_battle_queue = qn\<rparr>]\<rparr>"
    by simp
  from r3 obtain u1 hc where
    se1: "set_enemy c1 (Some c2) hb = (Return u1, hc)" and
    r4: "bnd (set_enemy c2 (Some c1)) (\<lambda>_.
     bnd (add qn c1) (\<lambda>_.
     bnd (is_empty ops qn) (\<lambda>e.
     bnd (if \<not> e then bnd (remove ops qn) (\<lambda>_. ret ()) else ret ()) (\<lambda>_.
     bnd (for_each
            (\<lambda>character.
               if Some character = p1 Q then add qn c1
               else add qn c2)
            (content Q)) (\<lambda>_.
     ret qn))))) hc = (Return q', h2)"
    by (rule bnd_ReturnE)
  from r4 obtain u2 hd where
    se2: "set_enemy c2 (Some c1) hc = (Return u2, hd)" and
    r5: "bnd (add qn c1) (\<lambda>_.
     bnd (is_empty ops qn) (\<lambda>e.
     bnd (if \<not> e then bnd (remove ops qn) (\<lambda>_. ret ()) else ret ()) (\<lambda>_.
     bnd (for_each
            (\<lambda>character.
               if Some character = p1 Q then add qn c1
               else add qn c2)
            (content Q)) (\<lambda>_.
     ret qn)))) hd = (Return q', h2)"
    by (rule bnd_ReturnE)
  have r5': "bnd (bnd (add qn c1) (\<lambda>_. bnd (is_empty ops qn)
                  (\<lambda>e. if \<not> e then bnd (remove ops qn) (\<lambda>_. ret ()) else ret ())))
              (\<lambda>_. bnd (for_each
                 (\<lambda>character. if Some character = p1 Q then add qn c1 else add qn c2)
                 (content Q)) (\<lambda>_. ret qn)) hd = (Return q', h2)"
    using r5 by (simp add: bnd_assoc)
  from r5' obtain u3 hP where
    pre: "bnd (add qn c1) (\<lambda>_. bnd (is_empty ops qn)
            (\<lambda>e. if \<not> e then bnd (remove ops qn) (\<lambda>_. ret ()) else ret ())) hd
          = (Return u3, hP)" and
    r6: "bnd (for_each
            (\<lambda>character. if Some character = p1 Q then add qn c1 else add qn c2)
            (content Q)) (\<lambda>_. ret qn) hP = (Return q', h2)"
    by (rule bnd_ReturnE)
  from r6 obtain ys h8 where
    fe: "for_each (\<lambda>character. if Some character = p1 Q then add qn c1 else add qn c2)
           (content Q) hP = (Return ys, h8)" and
    fin: "ret qn h8 = (Return q', h2)"
    by (rule bnd_ReturnE)
  have q': "q' = qn" and h2: "h2 = h8" using fin by (simp_all add: ret_def)
  have hc: "hc = hb\<lparr>chars := (chars hb)[c1 := (chars hb ! c1)\<lparr>enemy := Some c2\<rparr>]\<rparr>"
    using set_enemy_Return [OF se1] by simp
  have hd: "hd = hc\<lparr>chars := (chars hc)[c2 := (chars hc ! c2)\<lparr>enemy := Some c1\<rparr>]\<rparr>"
    using set_enemy_Return [OF se2] by simp
  have chd: "chars hd = chars h @
      [\<lparr>stats = stats (chars h ! a), enemy = Some (Suc ?n), char_battle_queue = qn\<rparr>,
       \<lparr>stats = stats (chars h ! b), enemy = Some ?n, char_battle_queue = qn\<rparr>]"
    using vb by (simp add: hd hc hb h1 c1 c2 nth_append list_update_append)
  have qhd: "queues hd = queues h" by (simp add: hd hc hb h1)
  have P: "chars hP = chars hd \<and> nodes hP = nodes hd \<and> length (queues hP) = length (queues hd) \<and>
         p1 (queues hP ! qn) = Some c1 \<and> p2 (queues hP ! qn) = enemy (chars hd ! c1) \<and>
         content (queues hP ! qn) = [] \<and> qclass (queues hP ! qn) = k"
    by (rule copy_prefix [OF _ _ _ pre]) (simp_all add: qhd qn new chd c1)
  have kp: "keeps_players qn hP h8"
    using for_each_add_players [of qn hP "\<lambda>character. Some character = p1 Q" c1 c2 "content Q"] fe
    by simp
  have e: "content (queues h ! q) = [] \<longrightarrow> h8 = hP"
    using fe Q by (auto simp: ret_def)
  show ?thesis
    using P kp e by (auto simp: q' h2 keeps_players_def chd qhd c1 nth_append)
qed

lemma copy_spec:
  assumes run: "copy ops q h = (Return q', h2)"
      and pa: "p1 (queues h ! q) = Some a" and pb: "p2 (queues h ! q) = Some b"
      and va: "a < length (chars h)" and vb: "b < length (chars h)"
  shows "q' = length (queues h) \<and> q' < length (queues h2) \<and>
         p1 (queues h2 ! q') = Some (length (chars h)) \<and>
         p2 (queues h2 ! q') = Some (Suc (length (chars h))) \<and>
         length (chars h2) = Suc (Suc (length (chars h))) \<and>
         stats (chars h2 ! length (chars h)) = stats (chars h ! a) \<and>
         stats (chars h2 ! Suc (length (chars h))) = stats (chars h ! b) \<and>
         (content (queues h ! q) = [] \<longrightarrow> content (queues h2 ! q') = [])"
proof -
  from run [unfolded copy_def] obtain Q hq where
    g: "get_queue q h = (Return Q, hq)" and
    r: "(case qclass Q of
           BattleQueue \<Rightarrow> BattleQueue_copy ops q
         | RestrictedBattleQueue \<Rightarrow> RestrictedBattleQueue_copy ops q) hq = (Return q', h2)"
    by (rule bnd_ReturnE)
  have hq: "hq = h" and qv: "q < length (queues h)"
    using g by (auto simp: get_queue_eq split: if_splits)
  let ?k = "qclass Q"
  let ?h' = "h\<lparr>queues := queues h @
         [\<lparr>qclass = ?k, content = [], p1 = None, p2 = None, add_status = []\<rparr>]\<rparr>"
  have body: "copy_body ops q (length (queues h)) ?h' = (Return q', h2)"
    using r unfolding hq
    by (cases "qclass Q")
       (simp_all add: BattleQueue_copy_def RestrictedBattleQueue_copy_def bnd_def
          BattleQueue_init_def RestrictedBattleQueue_init_def)
  have "q' = length (queues h) \<and>
         p1 (queues h2 ! length (queues h)) = Some (length (chars ?h')) \<and>
         p2 (queues h2 ! length (queues h)) = Some (Suc (length (chars ?h'))) \<and>
         length (chars h2) = Suc (Suc (length (chars ?h'))) \<and>
         stats (chars h2 ! length (chars ?h')) = stats (chars ?h' ! a) \<and>
         stats (chars h2 ! Suc (length (chars ?h'))) = stats (chars ?h' ! b) \<and>
         length (queues h2) = length (queues ?h') \<and>
         (content (queues ?h' ! q) = [] \<longrightarrow> content (queues h2 ! length (queues h)) = [])"
    by (rule copy_body_spec [OF body]) (use pa pb va vb qv in \<open>simp_all add: nth_append\<close>)
  then show ?thesis using qv by (simp add: nth_append)
qed

lemma available_actions_store: "snd (available_actions ops x h) = h"
  by (cases x) (simp_all add: available_actions_def throw_def bnd_def char_stats_eq ret_def)

lemma peek_Return:
  assumes "peek ops q h = (Return fr, h')"
  shows "clean_queue ops q h = (Return (), h')" and "h' = clean_heap ops q h"
  using assms by (auto simp: peek_eq clean_queue_eq split: if_splits)

lemma nodes_clean_heap [simp]: "nodes (clean_heap ops q h) = nodes h"
  by (simp add: clean_heap_def split: option.splits)

lemma clean_heap_nodes_update [simp]:
  "clean_heap ops q (h\<lparr>nodes := ns\<rparr>) = (clean_heap ops q h)\<lparr>nodes := ns\<rparr>"
  by (simp add: clean_heap_def split: option.splits)

lemma content_clean_heap_empty:
  "content (queues h ! q) = [] \<Longrightarrow> content (queues (clean_heap ops q h) ! q) = []"
  by (simp add: clean_heap_def)

lemma get_winner_store:
  "get_winner ops q h = (r, h') \<Longrightarrow> nodes h' = nodes h"
  by (auto simp: get_winner_def bnd_def is_over_eq clean_queue_eq get_queue_eq hp_of_eq ret_def
        split: prod.splits outcome.splits if_splits option.splits)

lemma get_node_eq:
  "get_node n h = (if n < length (nodes h) then (Return (nodes h ! n), h) else (Raise NoSuchObject, h))"
  by (simp add: get_node_def)

lemma score_terminal_children:
  assumes "score_terminal ops n h = (Return u, h')"
  shows "node_children (nodes h' ! n) = node_children (nodes h ! n) \<and>
         length (nodes h') = length (nodes h)"
proof -
  from assms [unfolded score_terminal_def] obtain N ha where
    g: "get_node n h = (Return N, ha)" and
    r1: "bnd (get_winner ops (node_battle_queue N)) (\<lambda>winner.
     bnd (get_node n) (\<lambda>N'.
       case winner of
         Some w \<Rightarrow>
           bnd (hp_of ops winner) (\<lambda>x.
             if node_current_player N' = winner then put_node n (N'\<lparr>node_highest_score := Some x\<rparr>)
             else put_node n (N'\<lparr>node_highest_score := Some (- x)\<rparr>))
       | None \<Rightarrow> put_node n (N'\<lparr>node_highest_score := Some 0\<rparr>))) ha = (Return u, h')"
    by (rule bnd_ReturnE)
  have ha: "ha = h" and nv: "n < length (nodes h)"
    using g by (auto simp: get_node_eq split: if_splits)
  from r1 obtain w hb where
    gw: "get_winner ops (node_battle_queue N) ha = (Return w, hb)" and
    r2: "bnd (get_node n) (\<lambda>N'.
       case w of
         Some w' \<Rightarrow>
           bnd (hp_of ops w) (\<lambda>x.
             if node_current_player N' = w then put_node n (N'\<lparr>node_highest_score := Some x\<rparr>)
             else put_node n (N'\<lparr>node_highest_score := Some (- x)\<rparr>))
       | None \<Rightarrow> put_node n (N'\<lparr>node_highest_score := Some 0\<rparr>)) hb = (Return u, h')"
    by (rule bnd_ReturnE)
  have nb: "nodes hb = nodes h" using get_winner_store [OF gw] ha by simp
  show ?thesis
    using r2 nb nv
    by (auto simp: bnd_def get_node_eq hp_of_eq put_node_def
          split: option.splits if_splits)
qed

lemma loop_terminal_root:
  assumes run: "minimax_loop ops fuel [root] h = (Return u, h')"
      and rv: "root < length (nodes h)"
      and ch: "node_children (nodes h ! root) = None"
      and over: "\<And>hx. is_over ops (node_battle_queue (nodes h ! root)) h \<noteq> (Return False, hx)"
  shows "root < length (nodes h') \<and> node_children (nodes h' ! root) = None"
proof (cases fuel)
  case 0
  with run show ?thesis by simp
next
  case (Suc f)
  let ?N = "nodes h ! root"
  let ?q = "node_battle_queue ?N"
  from run have r0: "bnd (get_node root) (\<lambda>N.
        bnd (is_over ops (node_battle_queue N)) (\<lambda>over.
        if \<not> over \<and> node_children N = None then
          bnd (get_children_nodes ops root) (\<lambda>children_nodes.
          bnd (get_node root) (\<lambda>N'.
          bnd (put_node root (N'\<lparr>node_children := Some children_nodes\<rparr>)) (\<lambda>_.
          minimax_loop ops f ([] @ [root] @ children_nodes))))
        else
          bnd (is_over ops (node_battle_queue N)) (\<lambda>over'.
          if \<not> over' \<and> node_children N \<noteq> None \<and> node_children N \<noteq> Some [] then
            bnd (for_each (\<lambda>child. bnd (get_node child) (\<lambda>C. ret (node_highest_score C)))
                   (the (node_children N))) (\<lambda>scores.
            bnd (py_max_scores scores) (\<lambda>m.
            bnd (get_node root) (\<lambda>N'.
            bnd (put_node root (N'\<lparr>node_highest_score := m\<rparr>)) (\<lambda>_.
            minimax_loop ops f []))))
          else
            bnd (score_terminal ops root) (\<lambda>_.
            minimax_loop ops f [])))) h = (Return u, h')"
    unfolding Suc by (simp add: Let_def)
  have g: "get_node root h = (Return ?N, h)" using rv by (simp add: get_node_eq)
  from r0 obtain N hg where g': "get_node root h = (Return N, hg)" and
    r1: "bnd (is_over ops (node_battle_queue N)) (\<lambda>over.
        if \<not> over \<and> node_children N = None then
          bnd (get_children_nodes ops root) (\<lambda>children_nodes.
          bnd (get_node root) (\<lambda>N'.
          bnd (put_node root (N'\<lparr>node_children := Some children_nodes\<rparr>)) (\<lambda>_.
          minimax_loop ops f ([] @ [root] @ children_nodes))))
        else
          bnd (is_over ops (node_battle_queue N)) (\<lambda>over'.
          if \<not> over' \<and> node_children N \<noteq> None \<and> node_children N \<noteq> Some [] then
            bnd (for_each (\<lambda>child. bnd (get_node child) (\<lambda>C. ret (node_highest_score C)))
                   (the (node_children N))) (\<lambda>scores.
            bnd (py_max_scores scores) (\<lambda>m.
            bnd (get_node root) (\<lambda>N'.
            bnd (put_node root (N'\<lparr>node_highest_score := m\<rparr>)) (\<lambda>_.
            minimax_loop ops f []))))
          else
            bnd (score_terminal ops root) (\<lambda>_.
            minimax_loop ops f []))) hg = (Return u, h')"
    by (rule bnd_ReturnE)
  have N: "N = ?N" and hg: "hg = h" using g g' by simp_all
  from r1 obtain ov h1 where io: "is_over ops (node_battle_queue N) hg = (Return ov, h1)" and
    r2: "(if \<not> ov \<and> node_children N = None then
          bnd (get_children_nodes ops root) (\<lambda>children_nodes.
          bnd (get_node root) (\<lambda>N'.
          bnd (put_node root (N'\<lparr>node_children := Some children_nodes\<rparr>)) (\<lambda>_.
          minimax_loop ops f ([] @ [root] @ children_nodes))))
        else
          bnd (is_over ops (node_battle_queue N)) (\<lambda>over'.
          if \<not> over' \<and> node_children N \<noteq> None \<and> node_children N \<noteq> Some [] then
            bnd (for_each (\<lambda>child. bnd (get_node child) (\<lambda>C. ret (node_highest_score C)))
                   (the (node_children N))) (\<lambda>scores.
            bnd (py_max_scores scores) (\<lambda>m.
            bnd (get_node root) (\<lambda>N'.
            bnd (put_node root (N'\<lparr>node_highest_score := m\<rparr>)) (\<lambda>_.
            minimax_loop ops f []))))
          else
            bnd (score_terminal ops root) (\<lambda>_.
            minimax_loop ops f []))) h1 = (Return u, h')"
    by (rule bnd_ReturnE)
  have ov: "ov" using io over [of h1] by (cases ov) (simp_all add: N hg)
  have io': "is_over ops (node_battle_queue N) h1 = (Return True, h1)"
    using is_over_again [OF io] ov by simp
  have n1: "nodes h1 = nodes h"
    using is_over_Return(3) [OF io] by (simp add: hg)
  from r2 ov have r2': "bnd (is_over ops (node_battle_queue N))
      (\<lambda>over'. bnd (score_terminal ops root) (\<lambda>_. minimax_loop ops f [])) h1 = (Return u, h')"
    by (simp add: ch N)
  from r2' obtain ov2 hh where io2: "is_over ops (node_battle_queue N) h1 = (Return ov2, hh)"
    and r3': "bnd (score_terminal ops root) (\<lambda>_. minimax_loop ops f []) hh = (Return u, h')"
    by (rule bnd_ReturnE)
  have "hh = h1" using io2 io' by simp
  with r3' have r3: "bnd (score_terminal ops root) (\<lambda>_. minimax_loop ops f []) h1
      = (Return u, h')" by simp
  from r3 obtain u2 h2 where st: "score_terminal ops root h1 = (Return u2, h2)" and
    r4: "minimax_loop ops f [] h2 = (Return u, h')"
    by (rule bnd_ReturnE)
  have "h' = h2" using r4 by (cases f) (simp_all add: ret_def)
  then show ?thesis
    using score_terminal_children [OF st] rv ch n1 by simp
qed

lemma over_result_False:
  assumes "over_result ops q h = Return False"
  shows "content (queues h ! q) \<noteq> [] \<and>
         (\<forall>a. p1 (queues h ! q) = Some a \<longrightarrow> hp_at ops h a \<noteq> 0) \<and>
         (\<forall>b. p2 (queues h ! q) = Some b \<longrightarrow> hp_at ops h b \<noteq> 0)"
  using assms by (auto simp: over_result_def split: if_splits option.splits)

lemma over_result_True:
  assumes "over_result ops q h = Return True"
      and "p1 (queues h ! q) = Some a" and "p2 (queues h ! q) = Some b"
      and "hp_at ops h a \<noteq> 0" and "hp_at ops h b \<noteq> 0"
  shows "content (queues h ! q) = []"
  using assms by (auto simp: over_result_def split: if_splits option.splits)

section \<open>Properties of the skill decision tree\<close>

lemma pick_loop_member:
  "foldl (\<lambda>h n. if priority n < priority h then n else h) a xs \<in> insert a (set xs)"
  by (induction xs arbitrary: a) auto

lemma pick_loop_le_start:
  "priority (foldl (\<lambda>h n. if priority n < priority h then n else h) a xs) \<le> priority a"
proof (induction xs arbitrary: a)
  case Nil
  show ?case by simp
next
  case (Cons x xs)
  show ?case using Cons.IH [of x] Cons.IH [of a] by auto
qed

lemma pick_loop_least:
  "m \<in> set xs \<Longrightarrow>
   priority (foldl (\<lambda>h n. if priority n < priority h then n else h) a xs) \<le> priority m"
proof (induction xs arbitrary: a)
  case Nil
  then show ?case by simp
next
  case (Cons x xs)
  show ?case
  proof (cases "m \<in> set xs")
    case True
    then show ?thesis using Cons.IH by simp
  next
    case False
    with Cons.prems have mx: "m = x" by simp
    have "priority (foldl (\<lambda>h n. if priority n < priority h then n else h)
            (if priority x < priority a then x else a) xs)
          \<le> priority (if priority x < priority a then x else a)"
      by (rule pick_loop_le_start)
    then show ?thesis using mx by (auto split: if_splits)
  qed
qed

text \<open>Every candidate is a subtree of the node that was asked.\<close>

lemma child_size:
  "child \<in> set cs \<Longrightarrow> size child < Suc (size_list size cs)"
  using size_list_estimation' [of child cs "size child" size] by simp

lemma candidates_size:
  "x \<in> set (get_possible_skills t caster target) \<Longrightarrow> size x \<le> size t"
proof (induction t caster target rule: get_possible_skills.induct)
  case (1 v cond p ch caster target)
  show ?case
  proof (cases "\<not> cond caster target \<or> ch = None")
    case True
    with "1.prems" show ?thesis by simp
  next
    case False
    then obtain cs where ch: "ch = Some cs" by auto
    from "1.prems" False ch obtain child where
      c: "child \<in> set cs" and x: "x \<in> set (get_possible_skills child caster target)"
      by auto
    have "size x \<le> size child" using "1.IH" [OF False] c x ch by simp
    moreover have "size child < size (SkillDecisionTree v cond p ch)"
      using child_size [OF c] ch by simp
    ultimately show ?thesis by simp
  qed
qed

text \<open>
  Claim C4, on the code.  For a node \<open>t\<close> built by the constructor: when the condition of
  \<open>t\<close> is false the result is \<open>[t]\<close>; when it is true and \<open>t\<close> has children the result is
  the concatenation of the candidate lists of the children, and \<open>t\<close> is not a member of
  it.  But a leaf built by the constructor has the empty list as its children, not
  \<open>None\<close>; when its condition is true, the test
  \<open>not self.condition(caster, target) or self.children is None\<close> fails and the result is
  the empty concatenation: the leaf is not returned as its own sole candidate, although
  the claim, and the docstring "Returns the list containing only self if self is a leaf",
  say so.
\<close>

theorem get_possible_skills_true_leaf:
  "(\<not> cond caster target \<longrightarrow>
      get_possible_skills (SkillDecisionTree_init v cond p chs) caster target
        = [SkillDecisionTree_init v cond p chs]) \<and>
   (cond caster target \<and> (chs = None \<or> chs = Some []) \<longrightarrow>
      get_possible_skills (SkillDecisionTree_init v cond p chs) caster target = []) \<and>
   (cond caster target \<and> chs = Some cs \<and> cs \<noteq> [] \<longrightarrow>
      get_possible_skills (SkillDecisionTree_init v cond p chs) caster target
        = concat (map (\<lambda>child. get_possible_skills child caster target) cs) \<and>
      SkillDecisionTree_init v cond p chs
        \<notin> set (get_possible_skills (SkillDecisionTree_init v cond p chs) caster target))"
proof (intro conjI impI)
  assume "\<not> cond caster target"
  then show "get_possible_skills (SkillDecisionTree_init v cond p chs) caster target
        = [SkillDecisionTree_init v cond p chs]"
    by (simp add: SkillDecisionTree_init_def)
next
  assume "cond caster target \<and> (chs = None \<or> chs = Some [])"
  then show "get_possible_skills (SkillDecisionTree_init v cond p chs) caster target = []"
    by (auto simp: SkillDecisionTree_init_def)
next
  assume a: "cond caster target \<and> chs = Some cs \<and> cs \<noteq> []"
  then show eq: "get_possible_skills (SkillDecisionTree_init v cond p chs) caster target
        = concat (map (\<lambda>child. get_possible_skills child caster target) cs)"
    by (simp add: SkillDecisionTree_init_def)
  show "SkillDecisionTree_init v cond p chs
        \<notin> set (get_possible_skills (SkillDecisionTree_init v cond p chs) caster target)"
  proof
    assume "SkillDecisionTree_init v cond p chs
        \<in> set (get_possible_skills (SkillDecisionTree_init v cond p chs) caster target)"
    with eq obtain child where c: "child \<in> set cs"
      and m: "SkillDecisionTree_init v cond p chs \<in> set (get_possible_skills child caster target)"
      by auto
    have "size (SkillDecisionTree_init v cond p chs) \<le> size child"
      using m by (rule candidates_size)
    moreover have "size child < size (SkillDecisionTree_init v cond p chs)"
      using child_size [OF c] a by (simp add: SkillDecisionTree_init_def)
    ultimately show False by simp
  qed
qed

theorem get_possible_skills_true_leaf_witness:
  "get_possible_skills
     (SkillDecisionTree_init ''MageAttack'' (\<lambda>(caster::nat) target. True) 1 None) 0 0 = []"
  using get_possible_skills_true_leaf
          [of "\<lambda>(caster::nat) target. True" 0 0 "''MageAttack''" 1 None]
  by simp

text \<open>
  Claim C5.  When the candidate list is empty \<open>pick_skill\<close> returns \<open>None\<close>; otherwise it
  returns the skill of a candidate whose priority number is the least among all
  candidates.  In particular, with exactly two candidates of priorities 3 and 7 (in either
  order) the skill of the priority-3 candidate is returned.
\<close>

theorem pick_skill_smallest_priority:
  "(get_possible_skills t caster target = [] \<longrightarrow> pick_skill t caster target = None) \<and>
   (get_possible_skills t caster target \<noteq> [] \<longrightarrow>
      (\<exists>n \<in> set (get_possible_skills t caster target).
          pick_skill t caster target = Some (skill_value n) \<and>
          (\<forall>m \<in> set (get_possible_skills t caster target). priority n \<le> priority m))) \<and>
   (\<forall>a b. priority a = 3 \<and> priority b = 7 \<and>
       (get_possible_skills t caster target = [a, b] \<or>
        get_possible_skills t caster target = [b, a]) \<longrightarrow>
       pick_skill t caster target = Some (skill_value a))"
proof (intro conjI impI allI)
  assume "get_possible_skills t caster target = []"
  then show "pick_skill t caster target = None"
    by (simp add: pick_skill_def)
next
  assume ne: "get_possible_skills t caster target \<noteq> []"
  then obtain f rest where ps: "get_possible_skills t caster target = f # rest"
    by (cases "get_possible_skills t caster target") auto
  let ?n = "foldl (\<lambda>h n. if priority n < priority h then n else h) f (f # rest)"
  have mem: "?n \<in> set (f # rest)"
    using pick_loop_member [of f "f # rest"] by simp
  have least: "\<forall>m \<in> set (f # rest). priority ?n \<le> priority m"
    using pick_loop_least [of _ "f # rest" f] by blast
  have res: "pick_skill t caster target = Some (skill_value ?n)"
    by (simp add: pick_skill_def ps)
  show "\<exists>n \<in> set (get_possible_skills t caster target).
          pick_skill t caster target = Some (skill_value n) \<and>
          (\<forall>m \<in> set (get_possible_skills t caster target). priority n \<le> priority m)"
    unfolding ps using mem least res [unfolded ps] res by (intro bexI [of _ ?n]) auto
next
  fix a b :: "('a, 'b) SkillDecisionTree"
  assume h: "priority a = 3 \<and> priority b = 7 \<and>
       (get_possible_skills t caster target = [a, b] \<or>
        get_possible_skills t caster target = [b, a])"
  then show "pick_skill t caster target = Some (skill_value a)"
    by (auto simp: pick_skill_def)
qed

theorem pick_skill_smallest_priority_witness:
  "get_possible_skills
     (SkillDecisionTree_init ''MageAttack'' (\<lambda>(c::nat) t. True) 5
        (Some [SkillDecisionTree_init ''RogueSpecial'' (\<lambda>c t. False) 7 None,
               SkillDecisionTree_init ''RogueAttack'' (\<lambda>c t. False) 3 None])) 0 0
     = [SkillDecisionTree_init ''RogueSpecial'' (\<lambda>c t. False) 7 None,
        SkillDecisionTree_init ''RogueAttack'' (\<lambda>c t. False) 3 None] \<and>
   pick_skill
     (SkillDecisionTree_init ''MageAttack'' (\<lambda>(c::nat) t. True) 5
        (Some [SkillDecisionTree_init ''RogueSpecial'' (\<lambda>c t. False) 7 None,
               SkillDecisionTree_init ''RogueAttack'' (\<lambda>c t. False) 3 None])) 0 0
     = Some ''RogueAttack''"
proof -
  let ?a = "SkillDecisionTree_init ''RogueAttack'' (\<lambda>(c::nat) t. False) 3 None"
  let ?b = "SkillDecisionTree_init ''RogueSpecial'' (\<lambda>(c::nat) t. False) 7 None"
  let ?t = "SkillDecisionTree_init ''MageAttack'' (\<lambda>(c::nat) t. True) 5 (Some [?b, ?a])"
  have cands: "get_possible_skills ?t 0 0 = [?b, ?a]"
    by (simp add: SkillDecisionTree_init_def)
  have pa: "priority ?a = 3" and pb: "priority ?b = 7"
    by (simp_all add: SkillDecisionTree_init_def)
  have "pick_skill ?t 0 0 = Some (skill_value ?a)"
    using pick_skill_smallest_priority [of ?t 0 0] cands pa pb by blast
  then show ?thesis using cands by (simp add: SkillDecisionTree_init_def)
qed
section \<open>Terminal states: winner, score and the empty queue\<close>

text \<open>
  Claim C10.  A queue to which no character was ever added is the object made by the
  constructor: no tickets and \<open>_p1 = None\<close>.  On it \<open>peek()\<close> returns \<open>None\<close>, not a
  character, and leaves the queue as it was (so the same holds after any number of
  \<open>peek()\<close> calls).
\<close>

theorem peek_never_populated:
  "fst (BattleQueue_init h) = Return (length (queues h)) \<and>
   peek ops (length (queues h)) (snd (BattleQueue_init h)) =
     (Return None, snd (BattleQueue_init h))"
  using peek_fresh [of ops h] by (simp add: BattleQueue_init_def)

text \<open>
  Claim C3, on the code.  Let \<open>is_over()\<close> return \<open>over\<close> on a queue whose players are
  \<open>a\<close> and \<open>b\<close>.  If the game is not over \<open>get_winner()\<close> returns \<open>None\<close>; if it is over
  and exactly one player has no hit points it returns the other one; if it is over and
  both still have hit points (the queue is empty) it returns \<open>None\<close>.  But when both
  players have 0 hit points the game is over and \<open>get_winner()\<close> takes its first branch,
  \<open>self._p1.get_hp() == 0\<close>, and returns player 2: a character without hit points is
  reported as the winner, where the claim says that the result is \<open>None\<close>.
\<close>

theorem get_winner_both_zero:
  assumes over: "is_over ops q h = (Return over, h')"
      and pa: "p1 (queues h ! q) = Some a" and pb: "p2 (queues h ! q) = Some b"
      and va: "a < length (chars h)" and vb: "b < length (chars h)"
  shows "(\<not> over \<longrightarrow> get_winner ops q h = (Return None, h')) \<and>
         (over \<and> hp_at ops h a \<noteq> 0 \<and> hp_at ops h b \<noteq> 0 \<longrightarrow>
            get_winner ops q h = (Return None, h')) \<and>
         (over \<and> hp_at ops h a \<noteq> 0 \<and> hp_at ops h b = 0 \<longrightarrow>
            get_winner ops q h = (Return (Some a), h')) \<and>
         (over \<and> hp_at ops h a = 0 \<and> hp_at ops h b \<noteq> 0 \<longrightarrow>
            get_winner ops q h = (Return (Some b), h')) \<and>
         (hp_at ops h a = 0 \<and> hp_at ops h b = 0 \<longrightarrow>
            over \<and> get_winner ops q h = (Return (Some b), h'))"
proof -
  note R = is_over_Return [OF over]
  have zero: "hp_at ops h a = 0 \<Longrightarrow> over"
    using R(2) pa pb va vb
    by (auto simp: over_result_def R(3) split: if_splits)
  have no: "\<not> over \<Longrightarrow> get_winner ops q h = (Return None, h')"
    using get_winner_not_over [of ops q h h'] over by simp
  have yes: "over \<Longrightarrow> get_winner ops q h =
           (Return (if hp_at ops h a = 0 then Some b
                    else if hp_at ops h b = 0 then Some a else None), h')"
    using get_winner_over [of ops q h h', OF _ pa pb va vb] over by simp
  show ?thesis
    using zero no yes by auto
qed

theorem get_winner_both_zero_witness:
  "get_winner example_ops 0 (example_heap BattleQueue (0, 100) (0, 100) [0, 1] [])
     = (Return (Some 1), example_heap BattleQueue (0, 100) (0, 100) [0, 1] [])"
proof -
  let ?h = "example_heap BattleQueue (0, 100) (0, 100) [0, 1] []"
  have over: "is_over example_ops 0 ?h = (Return True, ?h)"
    by code_simp
  have pa: "p1 (queues ?h ! 0) = Some 0" and pb: "p2 (queues ?h ! 0) = Some 1"
    and va: "0 < length (chars ?h)" and vb: "1 < length (chars ?h)"
    by (simp_all add: example_heap_def)
  have ha: "hp_at example_ops ?h 0 = 0" and hb: "hp_at example_ops ?h 1 = 0"
    by (simp_all add: hp_at_def example_heap_def example_ops_def)
  show ?thesis
    using get_winner_both_zero [OF over pa pb va vb] unfolding ha hb by simp
qed

text \<open>
  Claim C2.  Let the game on queue \<open>q\<close> be over (\<open>is_over()\<close> returns \<open>True\<close>), with
  players \<open>a\<close> and \<open>b\<close>, two different characters.  Then \<open>get_state_score_player\<close>
  returns, for a perspective \<open>p\<close> among the two players: the hit points of the survivor
  when \<open>p\<close> is the survivor, their negation when the opponent of \<open>p\<close> is the survivor,
  and 0 when both have no hit points or both still have some (the queue is empty).
\<close>

theorem terminal_state_score:
  assumes "is_over ops q h = (Return True, h')"
      and "p1 (queues h ! q) = Some a" and "p2 (queues h ! q) = Some b"
      and "a < length (chars h)" and "b < length (chars h)" and "a \<noteq> b"
      and "p = Some a \<or> p = Some b"
  shows "\<exists>score. get_state_score_player ops (Suc fuel) p q h = (Return score, h') \<and>
           (hp_at ops h a \<noteq> 0 \<and> hp_at ops h b = 0 \<longrightarrow>
              score = (if p = Some a then hp_at ops h a else - hp_at ops h a)) \<and>
           (hp_at ops h a = 0 \<and> hp_at ops h b \<noteq> 0 \<longrightarrow>
              score = (if p = Some b then hp_at ops h b else - hp_at ops h b)) \<and>
           (hp_at ops h a = 0 \<and> hp_at ops h b = 0 \<longrightarrow> score = 0) \<and>
           (hp_at ops h a \<noteq> 0 \<and> hp_at ops h b \<noteq> 0 \<longrightarrow>
              score = 0 \<and> content (queues h' ! q) = [])"
proof -
  note R = is_over_Return [OF assms(1)]
  have pa': "p1 (queues h' ! q) = Some a" and pb': "p2 (queues h' ! q) = Some b"
    using assms(2,3) by (simp_all add: R(3))
  have empty: "hp_at ops h a \<noteq> 0 \<and> hp_at ops h b \<noteq> 0 \<longrightarrow> content (queues h' ! q) = []"
    using R(2) pa' pb' assms(4,5)
    by (auto simp: over_result_def R(3) split: if_splits)
  show ?thesis
    using terminal_score_code [OF assms(1-5), of fuel p] empty by auto
qed

theorem terminal_state_score_witness:
  "get_state_score_player example_ops (Suc 0) (Some 0) 0
     (example_heap BattleQueue (100, 100) (0, 100) [0, 1] [])
   = (Return 100, example_heap BattleQueue (100, 100) (0, 100) [0, 1] []) \<and>
   get_state_score_player example_ops (Suc 0) (Some 1) 0
     (example_heap BattleQueue (100, 100) (0, 100) [0, 1] [])
   = (Return (- 100), example_heap BattleQueue (100, 100) (0, 100) [0, 1] [])"
proof -
  let ?h = "example_heap BattleQueue (100, 100) (0, 100) [0, 1] []"
  have over: "is_over example_ops 0 ?h = (Return True, ?h)"
    by code_simp
  have pa: "p1 (queues ?h ! 0) = Some 0" and pb: "p2 (queues ?h ! 0) = Some 1"
    and va: "0 < length (chars ?h)" and vb: "1 < length (chars ?h)"
    by (simp_all add: example_heap_def)
  have ha: "hp_at example_ops ?h 0 = 100" and hb: "hp_at example_ops ?h 1 = 0"
    by (simp_all add: hp_at_def example_heap_def example_ops_def)
  have ne: "(0::nat) \<noteq> 1" by simp
  have "\<exists>score. get_state_score_player example_ops (Suc 0) (Some 0) 0 ?h = (Return score, ?h)
           \<and> score = 100"
    using terminal_state_score [OF over pa pb va vb ne, of "Some 0" 0] unfolding ha hb
    by (auto simp del: get_state_score_player.simps)
  moreover
  have "\<exists>score. get_state_score_player example_ops (Suc 0) (Some 1) 0 ?h = (Return score, ?h)
           \<and> score = - 100"
    using terminal_state_score [OF over pa pb va vb ne, of "Some 1" 0] unfolding ha hb
    by (auto simp del: get_state_score_player.simps)
  ultimately show ?thesis
    by (auto simp del: get_state_score_player.simps)
qed

section \<open>The two minimax playstyles on a game that is already over\<close>

text \<open>
  Claim C8 fails on the code.  Let the game on a queue be over (\<open>is_over()\<close> returns
  \<open>True\<close>) while the character that \<open>peek()\<close> returns has an available action, the
  two players of the queue being assigned.  Then
  \<open>MinimaxIterativePlaystyle.select_attack\<close> does not return \<open>'X'\<close>, nor anything
  else, whatever bound on the number of iterations is taken: the root node of the search
  is scored by the last branch of the loop and is never given children, so
  \<open>root_node.children\<close> is still \<open>None\<close> when \<open>for child in root_node.children\<close>
  is reached.
\<close>

theorem iterative_select_attack_game_over:
  assumes over: "is_over ops q h = (Return True, h1)"
      and front: "bnd (peek ops q) (available_actions ops) h = (Return acts, h1')"
      and acts: "acts \<noteq> []"
      and pa: "p1 (queues h ! q) = Some a" and pb: "p2 (queues h ! q) = Some b"
      and va: "a < length (chars h)" and vb: "b < length (chars h)"
  shows "fst (MinimaxIterative_select_attack ops fuel q h) \<noteq> Return x"
proof
  assume "fst (MinimaxIterative_select_attack ops fuel q h) = Return x"
  then obtain hf where run: "MinimaxIterative_select_attack ops fuel q h = (Return x, hf)"
    by (cases "MinimaxIterative_select_attack ops fuel q h") simp
  note O = is_over_Return [OF over]
  from front obtain fr hp where pk: "peek ops q h = (Return fr, hp)"
    and av: "available_actions ops fr hp = (Return acts, h1')"
    by (rule bnd_ReturnE)
  have hp: "hp = h1" using peek_Return(2) [OF pk] O(3) by simp
  from run [unfolded MinimaxIterative_select_attack_def] obtain fr' hp' where
    pk': "peek ops q h = (Return fr', hp')" and
    r1: "bnd (available_actions ops fr') (\<lambda>actions.
     if actions = [] then ret ''X''
     else
       bnd (copy ops q) (\<lambda>bq_copy.
       bnd (peek ops bq_copy) (\<lambda>player.
       bnd (GameStateNode_init bq_copy player ''X'' None) (\<lambda>root_node.
       bnd (minimax_loop ops fuel [root_node]) (\<lambda>_.
       bnd (get_node root_node) (\<lambda>R.
         case node_children R of
           None \<Rightarrow> throw TypeError
         | Some chs \<Rightarrow> first_matching_child (node_highest_score R) (node_action_taken R) chs))))))
       hp' = (Return x, hf)"
    by (rule bnd_ReturnE)
  have same: "fr' = fr" "hp' = h1" using pk pk' hp by simp_all
  from r1 obtain acts' ha where av': "available_actions ops fr' hp' = (Return acts', ha)" and
    r2: "(if acts' = [] then ret ''X''
     else
       bnd (copy ops q) (\<lambda>bq_copy.
       bnd (peek ops bq_copy) (\<lambda>player.
       bnd (GameStateNode_init bq_copy player ''X'' None) (\<lambda>root_node.
       bnd (minimax_loop ops fuel [root_node]) (\<lambda>_.
       bnd (get_node root_node) (\<lambda>R.
         case node_children R of
           None \<Rightarrow> throw TypeError
         | Some chs \<Rightarrow> first_matching_child (node_highest_score R) (node_action_taken R) chs))))))
       ha = (Return x, hf)"
    by (rule bnd_ReturnE)
  have "acts' = acts" using av av' same hp by simp
  moreover have ha: "ha = h1"
    using available_actions_store [of ops fr' hp'] av' same by simp
  ultimately have r3: "bnd (copy ops q) (\<lambda>bq_copy.
       bnd (peek ops bq_copy) (\<lambda>player.
       bnd (GameStateNode_init bq_copy player ''X'' None) (\<lambda>root_node.
       bnd (minimax_loop ops fuel [root_node]) (\<lambda>_.
       bnd (get_node root_node) (\<lambda>R.
         case node_children R of
           None \<Rightarrow> throw TypeError
         | Some chs \<Rightarrow> first_matching_child (node_highest_score R) (node_action_taken R) chs)))))
       h1 = (Return x, hf)"
    using r2 acts by simp
  from r3 obtain qc h2 where cp: "copy ops q h1 = (Return qc, h2)" and
    r4: "bnd (peek ops qc) (\<lambda>player.
       bnd (GameStateNode_init qc player ''X'' None) (\<lambda>root_node.
       bnd (minimax_loop ops fuel [root_node]) (\<lambda>_.
       bnd (get_node root_node) (\<lambda>R.
         case node_children R of
           None \<Rightarrow> throw TypeError
         | Some chs \<Rightarrow> first_matching_child (node_highest_score R) (node_action_taken R) chs))))
       h2 = (Return x, hf)"
    by (rule bnd_ReturnE)
  from r4 obtain pl h3 where pk2: "peek ops qc h2 = (Return pl, h3)" and
    r5: "bnd (GameStateNode_init qc pl ''X'' None) (\<lambda>root_node.
       bnd (minimax_loop ops fuel [root_node]) (\<lambda>_.
       bnd (get_node root_node) (\<lambda>R.
         case node_children R of
           None \<Rightarrow> throw TypeError
         | Some chs \<Rightarrow> first_matching_child (node_highest_score R) (node_action_taken R) chs)))
       h3 = (Return x, hf)"
    by (rule bnd_ReturnE)
  from r5 obtain root h4 where ini: "GameStateNode_init qc pl ''X'' None h3 = (Return root, h4)" and
    r6: "bnd (minimax_loop ops fuel [root]) (\<lambda>_.
       bnd (get_node root) (\<lambda>R.
         case node_children R of
           None \<Rightarrow> throw TypeError
         | Some chs \<Rightarrow> first_matching_child (node_highest_score R) (node_action_taken R) chs))
       h4 = (Return x, hf)"
    by (rule bnd_ReturnE)
  from r6 obtain u h5 where lp: "minimax_loop ops fuel [root] h4 = (Return u, h5)" and
    r7: "bnd (get_node root) (\<lambda>R.
         case node_children R of
           None \<Rightarrow> throw TypeError
         | Some chs \<Rightarrow> first_matching_child (node_highest_score R) (node_action_taken R) chs)
       h5 = (Return x, hf)"
    by (rule bnd_ReturnE)
  have pa1: "p1 (queues h1 ! q) = Some a" and pb1: "p2 (queues h1 ! q) = Some b"
    and va1: "a < length (chars h1)" and vb1: "b < length (chars h1)"
    using pa pb va vb by (simp_all add: O(3))
  let ?n = "length (chars h1)"
  have Cp1: "p1 (queues h2 ! qc) = Some ?n" and Cp2: "p2 (queues h2 ! qc) = Some (Suc ?n)"
    and Cs1: "stats (chars h2 ! ?n) = stats (chars h1 ! a)"
    and Cs2: "stats (chars h2 ! Suc ?n) = stats (chars h1 ! b)"
    and Cc: "content (queues h1 ! q) = [] \<longrightarrow> content (queues h2 ! qc) = []"
    using copy_spec [OF cp pa1 pb1 va1 vb1] by blast+
  have h3: "h3 = clean_heap ops qc h2" using pk2 by (rule peek_Return(2))
  have root: "root = length (nodes h3)"
    and h4: "h4 = h3\<lparr>nodes := nodes h3 @ [\<lparr>node_battle_queue = qc, node_current_player = pl,
          node_action_taken = ''X'', node_highest_score = None, node_children = None\<rparr>]\<rparr>"
    using ini by (auto simp: GameStateNode_init_def)
  have rv: "root < length (nodes h4)" and ch: "node_children (nodes h4 ! root) = None"
    and nq: "node_battle_queue (nodes h4 ! root) = qc"
    by (simp_all add: root h4)
  have no_False: "\<And>hx. is_over ops (node_battle_queue (nodes h4 ! root)) h4 \<noteq> (Return False, hx)"
  proof
    fix hx
    assume "is_over ops (node_battle_queue (nodes h4 ! root)) h4 = (Return False, hx)"
    then have io: "is_over ops qc h4 = (Return False, hx)" by (simp add: nq)
    note F = is_over_Return [OF io]
    have chx: "chars hx = chars h2" by (simp add: F(3) h4 h3)
    have p1x: "p1 (queues hx ! qc) = Some ?n" and p2x: "p2 (queues hx ! qc) = Some (Suc ?n)"
      using Cp1 Cp2 by (simp_all add: F(3) h4 h3)
    from over_result_False [OF F(2)] p1x p2x
    have nz: "hp_at ops hx ?n \<noteq> 0" "hp_at ops hx (Suc ?n) \<noteq> 0"
      and ne: "content (queues hx ! qc) \<noteq> []"
      by simp_all
    have "hp_at ops hx ?n = hp_at ops h1 a" "hp_at ops hx (Suc ?n) = hp_at ops h1 b"
      using Cs1 Cs2 by (simp_all add: hp_at_def chx)
    with nz have "hp_at ops h1 a \<noteq> 0" "hp_at ops h1 b \<noteq> 0" by simp_all
    from over_result_True [OF O(2) pa1 pb1 this]
    have "content (queues h1 ! q) = []" .
    with Cc have "content (queues h2 ! qc) = []" by simp
    then have "content (queues h3 ! qc) = []"
      unfolding h3 by (rule content_clean_heap_empty)
    then have "content (queues h4 ! qc) = []" by (simp add: h4)
    then have "content (queues hx ! qc) = []"
      unfolding F(3) by (rule content_clean_heap_empty)
    with ne show False by simp
  qed
  from loop_terminal_root [OF lp rv ch no_False]
  have "root < length (nodes h5)" "node_children (nodes h5 ! root) = None" by simp_all
  with r7 show False
    by (simp add: bnd_def get_node_eq throw_def)
qed

text \<open>
  On a concrete state: the rogue (100 hit points, 100 skill points) is at the front and
  has both actions available, the mage has 0 hit points.  The call raises \<open>TypeError\<close>.
\<close>

theorem iterative_select_attack_game_over_witness:
  "is_over example_ops 0 (example_heap BattleQueue (100, 100) (0, 100) [0, 1] []) =
     (Return True, example_heap BattleQueue (100, 100) (0, 100) [0, 1] []) \<and>
   bnd (peek example_ops 0) (available_actions example_ops)
     (example_heap BattleQueue (100, 100) (0, 100) [0, 1] []) =
     (Return [''A'', ''S''], example_heap BattleQueue (100, 100) (0, 100) [0, 1] []) \<and>
   fst (MinimaxIterative_select_attack example_ops (Suc (Suc 0)) 0
          (example_heap BattleQueue (100, 100) (0, 100) [0, 1] [])) \<noteq> Return ''X'' \<and>
   fst (MinimaxIterative_select_attack example_ops (Suc (Suc 0)) 0
          (example_heap BattleQueue (100, 100) (0, 100) [0, 1] [])) = Raise TypeError"
proof -
  let ?h = "example_heap BattleQueue (100, 100) (0, 100) [0, 1] []"
  have over: "is_over example_ops 0 ?h = (Return True, ?h)"
    by code_simp
  have front: "bnd (peek example_ops 0) (available_actions example_ops) ?h
                 = (Return [''A'', ''S''], ?h)"
    by code_simp
  have acts: "[''A'', ''S''] \<noteq> []" by simp
  have pa: "p1 (queues ?h ! 0) = Some 0" and pb: "p2 (queues ?h ! 0) = Some 1"
    and va: "0 < length (chars ?h)" and vb: "1 < length (chars ?h)"
    by (simp_all add: example_heap_def)
  have n: "fst (MinimaxIterative_select_attack example_ops (Suc (Suc 0)) 0 ?h) \<noteq> Return ''X''"
    by (rule iterative_select_attack_game_over [OF over front acts pa pb va vb])
  have e: "fst (MinimaxIterative_select_attack example_ops (Suc (Suc 0)) 0 ?h) = Raise TypeError"
    by code_simp
  from over front n e show ?thesis by blast
qed

text \<open>
  Claim C1, evaluated on the code.  On the same state the recursive playstyle returns
  \<open>'A'\<close> while the iterative playstyle raises \<open>TypeError\<close>: the two do not return
  actions of equal score, since one of them returns no action at all.
\<close>

theorem playstyles_differ_game_over:
  "fst (MinimaxRecursive_select_attack example_ops (Suc 0) 0
          (example_heap BattleQueue (100, 100) (0, 100) [0, 1] [])) = Return ''A'' \<and>
   fst (MinimaxIterative_select_attack example_ops (Suc (Suc 0)) 0
          (example_heap BattleQueue (100, 100) (0, 100) [0, 1] [])) = Raise TypeError"
  by code_simp

section \<open>The restricted queue\<close>

text \<open>
  Claim C6.  In every store that is reachable from the empty store by creating queues and
  characters, changing characters, and calling \<open>add\<close>, \<open>remove\<close>, \<open>peek\<close>,
  \<open>is_empty\<close> and \<open>copy\<close>, every restricted queue \<open>q\<close> and every character \<open>c\<close>
  satisfy: \<open>get_add_ability_count(c)\<close> returns a number that is at most 2.
\<close>

theorem add_ability_count_at_most_two:
  assumes "reachable ops h" and "q < length (queues h)"
      and "qclass (queues h ! q) = RestrictedBattleQueue"
  shows "\<exists>n. get_add_ability_count q c h = (Return n, h) \<and> n \<le> 2"
proof -
  have "rq_ok (queues h ! q)"
    using reachable_inv [OF assms(1)] assms(2,3) by (rule rbq_inv_nth)
  then show ?thesis
    using assms(2)
    by (auto simp: get_add_ability_count_eq rq_ok_def count_add_ability_eligible)
qed

theorem add_ability_count_at_most_two_witness:
  "reachable example_ops example_restricted \<and>
   0 < length (queues example_restricted) \<and>
   qclass (queues example_restricted ! 0) = RestrictedBattleQueue \<and>
   content (queues example_restricted ! 0) = [0, 0, 0] \<and>
   add_status (queues example_restricted ! 0) = [True, True, False] \<and>
   (\<exists>n. get_add_ability_count 0 0 example_restricted = (Return n, example_restricted) \<and> n \<le> 2)"
proof -
  have r: "reachable example_ops example_restricted"
    unfolding example_restricted_def
    by (intro reachable.add reachable.characters [OF reachable.new_queue [OF reachable.empty_store]])
       simp
  have v: "0 < length (queues example_restricted)"
    and k: "qclass (queues example_restricted ! 0) = RestrictedBattleQueue"
    and c: "content (queues example_restricted ! 0) = [0, 0, 0]"
    and s: "add_status (queues example_restricted ! 0) = [True, True, False]"
    unfolding example_restricted_def by code_simp+
  from add_ability_count_at_most_two [OF r v k, of 0] r v k c s show ?thesis by blast
qed

section \<open>Copies and searches do not touch the original\<close>

text \<open>
  Claim C9.  When \<open>Q.copy()\<close> returns (both players of \<open>Q\<close> are assigned), any
  sequence of mutations of the copy (adding and removing its tickets, inspecting it,
  attacking with its characters) leaves every object that existed before the copy was
  made exactly as it was: the hit points and skill points of every character and the
  tickets of \<open>Q\<close>, in their order.  This holds for \<open>BattleQueue.copy\<close> and for
  \<open>RestrictedBattleQueue.copy\<close>.
\<close>

theorem copy_independent:
  assumes "copy ops q h = (Return q', h1)"
  shows "unchanged h (run_mutations ops q' mus h1)"
proof -
  have I: "fresh_inv h h1"
    using ok_copy fresh_inv_refl assms by (rule okD)
  have n: "newq h q'"
    using ok_copy fresh_inv_refl assms by (rule okD_ret)
  from run_mutations_inv [OF n I] show ?thesis by (simp add: fresh_inv_def)
qed

theorem copy_independent_witness:
  "fst (copy example_ops 0 example_start) = Return 1 \<and>
   unchanged example_start
     (run_mutations example_ops 1 example_mutations (snd (copy example_ops 0 example_start))) \<and>
   map stats (chars
     (run_mutations example_ops 1 example_mutations (snd (copy example_ops 0 example_start)))) =
     [\<lparr>hp = 100, sp = 100, cclass = Rogue\<rparr>, \<lparr>hp = 100, sp = 100, cclass = Mage\<rparr>,
      \<lparr>hp = 70, sp = 97, cclass = Rogue\<rparr>, \<lparr>hp = 93, sp = 70, cclass = Mage\<rparr>] \<and>
   map content (queues
     (run_mutations example_ops 1 example_mutations (snd (copy example_ops 0 example_start)))) =
     [[0, 1], [2, 2, 3, 2]]"
proof -
  have c: "fst (copy example_ops 0 example_start) = Return 1"
    unfolding example_start_def by code_simp
  then have "copy example_ops 0 example_start = (Return 1, snd (copy example_ops 0 example_start))"
    by (simp add: prod_eq_iff)
  from copy_independent [OF this, of example_mutations]
  have u: "unchanged example_start
     (run_mutations example_ops 1 example_mutations (snd (copy example_ops 0 example_start)))" .
  have s: "map stats (chars
     (run_mutations example_ops 1 example_mutations (snd (copy example_ops 0 example_start)))) =
     [\<lparr>hp = 100, sp = 100, cclass = Rogue\<rparr>, \<lparr>hp = 100, sp = 100, cclass = Mage\<rparr>,
      \<lparr>hp = 70, sp = 97, cclass = Rogue\<rparr>, \<lparr>hp = 93, sp = 70, cclass = Mage\<rparr>]"
    unfolding example_start_def example_mutations_def by code_simp
  have t: "map content (queues
     (run_mutations example_ops 1 example_mutations (snd (copy example_ops 0 example_start)))) =
     [[0, 1], [2, 2, 3, 2]]"
    unfolding example_start_def example_mutations_def by code_simp
  from c u s t show ?thesis by blast
qed

text \<open>
  Claim C7, as stated, fails on the code: \<open>select_attack\<close> begins with
  \<open>self.battle_queue.peek()\<close> on the original queue, and \<open>peek\<close> purges the front
  tickets of characters without an available action.  Here the original queue holds a
  ticket of the rogue (no available action) before the ticket of the mage; after the
  recursive playstyle has chosen \<open>'A'\<close>, the ticket of the rogue is gone from the
  original queue.
\<close>

theorem select_attack_purges_original:
  "fst (MinimaxRecursive_select_attack example_ops (Suc (Suc (Suc 0))) 0 example_stale)
     = Return ''A'' \<and>
   content (queues example_stale ! 0) = [0, 1] \<and>
   content (queues (snd (MinimaxRecursive_select_attack example_ops (Suc (Suc (Suc 0))) 0
                           example_stale)) ! 0) = [1]"
  unfolding example_stale_def by code_simp

text \<open>
  Claim C7, amended.  \<open>get_state_score\<close> leaves every object of the store exactly as
  it was.  Both \<open>select_attack\<close> methods leave every object as one call of
  \<open>_clean_queue\<close> on the original queue leaves it, and that call changes nothing
  but the tickets of that queue (and, for a restricted queue, the status list kept
  with them), from whose front it purges tickets of characters that have no available
  action: no character's hit points or skill points change, and the remaining tickets
  keep their order.
\<close>

theorem search_leaves_original:
  "(get_state_score ops fuel q h = (r1, h1) \<longrightarrow> unchanged h h1) \<and>
   (MinimaxRecursive_select_attack ops fuel q h = (r2, h2) \<longrightarrow>
      unchanged (snd (clean_queue ops q h)) h2) \<and>
   (MinimaxIterative_select_attack ops fuel q h = (r3, h3) \<longrightarrow>
      unchanged (snd (clean_queue ops q h)) h3) \<and>
   chars (snd (clean_queue ops q h)) = chars h \<and>
   length (queues (snd (clean_queue ops q h))) = length (queues h) \<and>
   (\<forall>q'. q' \<noteq> q \<longrightarrow> queues (snd (clean_queue ops q h)) ! q' = queues h ! q') \<and>
   p1 (queues (snd (clean_queue ops q h)) ! q) = p1 (queues h ! q) \<and>
   p2 (queues (snd (clean_queue ops q h)) ! q) = p2 (queues h ! q) \<and>
   (\<exists>purged.
      content (queues h ! q) = purged @ content (queues (snd (clean_queue ops q h)) ! q) \<and>
      (\<forall>c \<in> set purged. get_available_actions ops (stats (chars h ! c)) = []))"
  using get_state_score_frame [of ops fuel q h r1 h1]
        recursive_select_frame [of ops fuel q h r2 h2]
        iterative_select_frame [of ops fuel q h r3 h3]
        clean_queue_effect [of ops q h]
  by blast

theorem search_leaves_original_witness:
  "fst (get_state_score example_ops 3 0 example_stale) = Return 100 \<and>
   unchanged example_stale (snd (get_state_score example_ops 3 0 example_stale)) \<and>
   fst (MinimaxRecursive_select_attack example_ops 3 0 example_stale) = Return ''A'' \<and>
   unchanged (snd (clean_queue example_ops 0 example_stale))
     (snd (MinimaxRecursive_select_attack example_ops 3 0 example_stale)) \<and>
   fst (MinimaxIterative_select_attack example_ops 5 0 example_stale) = Return ''A'' \<and>
   unchanged (snd (clean_queue example_ops 0 example_stale))
     (snd (MinimaxIterative_select_attack example_ops 5 0 example_stale)) \<and>
   content (queues example_stale ! 0) =
     [0] @ content (queues (snd (clean_queue example_ops 0 example_stale)) ! 0) \<and>
   get_available_actions example_ops (stats (chars example_stale ! 0)) = []"
proof -
  have a: "fst (get_state_score example_ops 3 0 example_stale) = Return 100"
    and b: "fst (MinimaxRecursive_select_attack example_ops 3 0 example_stale) = Return ''A''"
    and c: "fst (MinimaxIterative_select_attack example_ops 5 0 example_stale) = Return ''A''"
    and d: "content (queues example_stale ! 0) =
              [0] @ content (queues (snd (clean_queue example_ops 0 example_stale)) ! 0)"
    and e: "get_available_actions example_ops (stats (chars example_stale ! 0)) = []"
    unfolding example_stale_def by code_simp+
  have a': "get_state_score example_ops 3 0 example_stale =
      (fst (get_state_score example_ops 3 0 example_stale),
       snd (get_state_score example_ops 3 0 example_stale))"
    and b': "MinimaxRecursive_select_attack example_ops 3 0 example_stale =
      (fst (MinimaxRecursive_select_attack example_ops 3 0 example_stale),
       snd (MinimaxRecursive_select_attack example_ops 3 0 example_stale))"
    and c': "MinimaxIterative_select_attack example_ops 5 0 example_stale =
      (fst (MinimaxIterative_select_attack example_ops 5 0 example_stale),
       snd (MinimaxIterative_select_attack example_ops 5 0 example_stale))"
    by simp_all
  have u1: "unchanged example_stale (snd (get_state_score example_ops 3 0 example_stale))"
    using search_leaves_original [of example_ops 3 0 example_stale
            "fst (get_state_score example_ops 3 0 example_stale)"
            "snd (get_state_score example_ops 3 0 example_stale)"] a'
    by blast
  have u2: "unchanged (snd (clean_queue example_ops 0 example_stale))
     (snd (MinimaxRecursive_select_attack example_ops 3 0 example_stale))"
    using search_leaves_original [of example_ops 3 0 example_stale _ _
            "fst (MinimaxRecursive_select_attack example_ops 3 0 example_stale)"
            "snd (MinimaxRecursive_select_attack example_ops 3 0 example_stale)"] b'
    by blast
  have u3: "unchanged (snd (clean_queue example_ops 0 example_stale))
     (snd (MinimaxIterative_select_attack example_ops 5 0 example_stale))"
    using search_leaves_original [of example_ops 5 0 example_stale _ _ _ _
            "fst (MinimaxIterative_select_attack example_ops 5 0 example_stale)"
            "snd (MinimaxIterative_select_attack example_ops 5 0 example_stale)"] c'
    by blast
  from a b c d e u1 u2 u3 show ?thesis by blast
qed


end
